theory Spec2Isabelle
  imports Complex_Main "HOL-Library.Sublist"
begin

section \<open>PrefetchGenerator: a worker thread feeding a bounded queue\<close>

text \<open>
  A Python value that may be \<^verbatim>\<open>None\<close> is an \<open>'a option\<close>: \<open>None\<close> is Python's
  \<^verbatim>\<open>None\<close>, \<open>Some x\<close> any other object.

  The generator object of \<^verbatim>\<open>dataset.py\<close>: \<open>queue\<close> is the content of
  \<^verbatim>\<open>self.queue\<close>, oldest entry first; \<open>maxsize\<close> is the argument of
  \<^verbatim>\<open>queue.Queue(num_data_prefetch_queue)\<close>; \<open>generator\<close> holds the items
  \<^verbatim>\<open>self.generator\<close> has still to yield; \<open>alive\<close> says that \<^verbatim>\<open>run\<close> has not returned yet.
\<close>

record 'a PrefetchGenerator =
  queue :: "'a option list"
  maxsize :: int
  generator :: "'a option list"
  alive :: bool

text \<open>\<^verbatim>\<open>__init__\<close>: an empty queue of the given size; \<^verbatim>\<open>self.start()\<close> makes the worker runnable.\<close>

definition PrefetchGenerator_init :: "'a option list \<Rightarrow> int \<Rightarrow> 'a PrefetchGenerator" where
  "PrefetchGenerator_init gen num_data_prefetch_queue =
     \<lparr>queue = [], maxsize = num_data_prefetch_queue, generator = gen, alive = True\<rparr>"

text \<open>
  \<^verbatim>\<open>queue.Queue.put\<close> waits while \<^verbatim>\<open>maxsize > 0 and qsize() >= maxsize\<close>; a size of zero or
  less is an unbounded queue.
\<close>

definition full :: "'a PrefetchGenerator \<Rightarrow> bool" where
  "full g = (0 < maxsize g \<and> maxsize g \<le> int (length (queue g)))"

text \<open>
  One step of the worker thread in \<^verbatim>\<open>run\<close>: the next item of the generator is put, or, the
  generator being exhausted, the final \<^verbatim>\<open>None\<close> is put and the thread ends. Taking the item
  from the generator touches nothing another thread sees, so it is one step with its
  \<^verbatim>\<open>put\<close>. The result is \<open>None\<close> when the worker cannot move: it waits in \<^verbatim>\<open>put\<close> on a full
  queue, or it has ended.
\<close>

definition run_step :: "'a PrefetchGenerator \<Rightarrow> 'a PrefetchGenerator option" where
  "run_step g =
     (if \<not> alive g \<or> full g then None
      else (case generator g of
              [] \<Rightarrow> Some (g\<lparr>queue := queue g @ [None], alive := False\<rparr>)
            | item # rest \<Rightarrow> Some (g\<lparr>queue := queue g @ [item], generator := rest\<rparr>)))"

datatype 'a outcome = Returns 'a | StopIteration

text \<open>
  \<^verbatim>\<open>__next__\<close>: \<^verbatim>\<open>self.queue.get()\<close> waits on an empty queue (the result \<open>None\<close>: the call has
  not returned); otherwise the oldest entry leaves the queue, and \<^verbatim>\<open>None\<close> raises
  \<^verbatim>\<open>StopIteration\<close>.
\<close>

definition PrefetchGenerator_next ::
  "'a PrefetchGenerator \<Rightarrow> ('a outcome \<times> 'a PrefetchGenerator) option" where
  "PrefetchGenerator_next g =
     (case queue g of
        [] \<Rightarrow> None
      | next_item # q \<Rightarrow>
          Some ((case next_item of None \<Rightarrow> StopIteration | Some x \<Rightarrow> Returns x), g\<lparr>queue := q\<rparr>))"

subsection \<open>Interleavings of the worker and the consumer\<close>

text \<open>
  A schedule names the thread that runs next. A thread that is scheduled while it waits
  does not move. \<open>calls\<close> records the outcomes of the \<^verbatim>\<open>__next__\<close> calls that have returned
  or raised, oldest first. The consumer is the most general one: whenever it is scheduled
  it is inside a call of \<^verbatim>\<open>__next__\<close>.
\<close>

datatype thread = Worker | Consumer

record 'a execution =
  gen :: "'a PrefetchGenerator"
  calls :: "'a outcome list"

definition step :: "thread \<Rightarrow> 'a execution \<Rightarrow> 'a execution" where
  "step t s =
     (case t of
        Worker \<Rightarrow> (case run_step (gen s) of None \<Rightarrow> s | Some g \<Rightarrow> s\<lparr>gen := g\<rparr>)
      | Consumer \<Rightarrow>
          (case PrefetchGenerator_next (gen s) of
             None \<Rightarrow> s
           | Some (out, g) \<Rightarrow> s\<lparr>gen := g, calls := calls s @ [out]\<rparr>))"

fun exec :: "thread list \<Rightarrow> 'a execution \<Rightarrow> 'a execution" where
  "exec [] s = s"
| "exec (t # sch) s = exec sch (step t s)"

definition start :: "'a option list \<Rightarrow> int \<Rightarrow> 'a execution" where
  "start xs n = \<lparr>gen = PrefetchGenerator_init xs n, calls = []\<rparr>"

text \<open>What the worker has still to put, and everything the consumer has still to get.\<close>

definition pending :: "'a PrefetchGenerator \<Rightarrow> 'a option list" where
  "pending g = (if alive g then generator g @ [None] else [])"

definition stream :: "'a PrefetchGenerator \<Rightarrow> 'a option list" where
  "stream g = queue g @ pending g"

fun value_of :: "'a outcome \<Rightarrow> 'a option" where
  "value_of (Returns x) = Some x"
| "value_of StopIteration = None"

text \<open>
  A \<^verbatim>\<open>for item in prefetch_generator\<close> loop ends at the first \<^verbatim>\<open>StopIteration\<close>: its items are
  the ones returned before it.
\<close>

fun for_loop_items :: "'a outcome list \<Rightarrow> 'a list" where
  "for_loop_items [] = []"
| "for_loop_items (Returns x # outs) = x # for_loop_items outs"
| "for_loop_items (StopIteration # outs) = []"

subsection \<open>Blocking calls\<close>

text \<open>
  Seen from the consumer, an interleaving is the number of steps the worker is given
  between two calls. \<open>worker_run k\<close> schedules the worker \<open>k\<close> times.
\<close>

fun worker_run :: "nat \<Rightarrow> 'a PrefetchGenerator \<Rightarrow> 'a PrefetchGenerator" where
  "worker_run 0 g = g"
| "worker_run (Suc k) g = (case run_step g of None \<Rightarrow> g | Some g' \<Rightarrow> worker_run k g')"

text \<open>
  A call of \<^verbatim>\<open>__next__\<close> that is waited for: after \<open>k\<close> steps of the worker, the consumer
  finds an entry, or it waits in \<^verbatim>\<open>get\<close> until the worker has put one. When the queue is
  empty and the worker has ended, nobody will ever put: the call never returns (\<open>None\<close>).
\<close>

definition await_next :: "nat \<Rightarrow> 'a PrefetchGenerator \<Rightarrow> ('a outcome \<times> 'a PrefetchGenerator) option" where
  "await_next k g =
     (let g1 = worker_run k g in
      case queue g1 of
        [] \<Rightarrow> (case run_step g1 of None \<Rightarrow> None | Some g2 \<Rightarrow> PrefetchGenerator_next g2)
      | _ \<Rightarrow> PrefetchGenerator_next g1)"

text \<open>The head of a schedule of worker steps; a schedule that has run out gives the worker no step.\<close>

fun ahead :: "nat list \<Rightarrow> nat" where
  "ahead [] = 0"
| "ahead (k # ks) = k"

section \<open>Properties of the queue\<close>

lemma run_step_stream: "run_step g = Some g' \<Longrightarrow> stream g' = stream g"
  by (auto simp: run_step_def stream_def pending_def split: if_splits list.splits)

lemma run_step_maxsize: "run_step g = Some g' \<Longrightarrow> maxsize g' = maxsize g"
  by (auto simp: run_step_def split: if_splits list.splits)

lemma run_step_length: "run_step g = Some g' \<Longrightarrow> length (queue g') = Suc (length (queue g))"
  by (auto simp: run_step_def split: if_splits list.splits)

lemma run_step_not_full: "run_step g = Some g' \<Longrightarrow> \<not> full g"
  by (auto simp: run_step_def split: if_splits)

lemma next_stream:
  "PrefetchGenerator_next g = Some (out, g') \<Longrightarrow> stream g = value_of out # stream g'"
  by (auto simp: PrefetchGenerator_next_def stream_def pending_def split: list.splits option.splits)

lemma next_maxsize: "PrefetchGenerator_next g = Some (out, g') \<Longrightarrow> maxsize g' = maxsize g"
  by (auto simp: PrefetchGenerator_next_def split: list.splits)

lemma next_length:
  "PrefetchGenerator_next g = Some (out, g') \<Longrightarrow> Suc (length (queue g')) = length (queue g)"
  by (auto simp: PrefetchGenerator_next_def split: list.splits)

lemma step_maxsize: "maxsize (gen (step t s)) = maxsize (gen s)"
  by (cases t) (auto simp: step_def run_step_maxsize next_maxsize split: option.splits)

lemma step_conserves:
  "map value_of (calls (step t s)) @ stream (gen (step t s)) = map value_of (calls s) @ stream (gen s)"
  by (cases t) (auto simp: step_def run_step_stream dest: next_stream split: option.splits)

lemma step_bounded:
  assumes "int (length (queue (gen s))) \<le> maxsize (gen s)" and "0 < maxsize (gen s)"
  shows "int (length (queue (gen (step t s)))) \<le> maxsize (gen (step t s))"
proof (cases t)
  case Worker
  show ?thesis
  proof (cases "run_step (gen s)")
    case None
    with Worker assms show ?thesis by (simp add: step_def)
  next
    case (Some g)
    from Some have "\<not> full (gen s)" by (rule run_step_not_full)
    with assms have "int (length (queue (gen s))) < maxsize (gen s)"
      by (auto simp: full_def)
    with Some Worker show ?thesis
      by (simp add: step_def run_step_maxsize run_step_length)
  qed
next
  case Consumer
  with assms show ?thesis
    by (auto simp: step_def next_maxsize dest: next_length split: option.splits)
qed

lemma exec_maxsize: "maxsize (gen (exec sch s)) = maxsize (gen s)"
  by (induction sch arbitrary: s) (simp_all add: step_maxsize)

lemma exec_conserves:
  "map value_of (calls (exec sch s)) @ stream (gen (exec sch s)) = map value_of (calls s) @ stream (gen s)"
  by (induction sch arbitrary: s) (simp_all add: step_conserves)

lemma exec_bounded:
  "int (length (queue (gen s))) \<le> maxsize (gen s) \<Longrightarrow> 0 < maxsize (gen s) \<Longrightarrow>
   int (length (queue (gen (exec sch s)))) \<le> maxsize (gen (exec sch s))"
proof (induction sch arbitrary: s)
  case Nil
  then show ?case by simp
next
  case (Cons t sch)
  have "int (length (queue (gen (step t s)))) \<le> maxsize (gen (step t s))"
    using Cons.prems by (rule step_bounded)
  moreover have "0 < maxsize (gen (step t s))"
    using Cons.prems by (simp add: step_maxsize)
  ultimately show ?case
    using Cons.IH [of "step t s"] by simp
qed

lemma start_stream: "map value_of (calls (start xs n)) @ stream (gen (start xs n)) = xs @ [None]"
  by (simp add: start_def PrefetchGenerator_init_def stream_def pending_def)

lemma full_blocks: "full g \<Longrightarrow> run_step g = None"
  by (simp add: run_step_def)

lemma worker_run_stream: "stream (worker_run k g) = stream g"
  by (induction k arbitrary: g) (auto simp: run_step_stream split: option.splits)

lemma await_next_stream:
  "await_next k g = Some (out, g') \<Longrightarrow> stream g = value_of out # stream g'"
  using worker_run_stream [of k g]
  by (auto simp: await_next_def Let_def dest!: next_stream run_step_stream split: list.splits option.splits)

lemma await_next_blocks: "await_next k g = None \<longleftrightarrow> stream g = []"
proof -
  let ?g = "worker_run k g"
  have s: "stream ?g = stream g" by (rule worker_run_stream)
  show ?thesis
  proof (cases "queue ?g")
    case Nil
    show ?thesis
    proof (cases "run_step ?g")
      case None
      with Nil have "\<not> alive ?g"
        by (auto simp: run_step_def full_def split: if_splits list.splits)
      with Nil s None show ?thesis
        by (auto simp: await_next_def stream_def pending_def)
    next
      case (Some g2)
      then have "queue g2 \<noteq> []"
        by (auto simp: run_step_def split: if_splits list.splits)
      then have "PrefetchGenerator_next g2 \<noteq> None"
        by (auto simp: PrefetchGenerator_next_def split: list.splits)
      moreover from Some have "alive ?g"
        by (auto simp: run_step_def split: if_splits)
      ultimately show ?thesis
        using Nil Some s by (auto simp: await_next_def stream_def pending_def)
    qed
  next
    case (Cons v q)
    then show ?thesis
      using s by (auto simp: await_next_def PrefetchGenerator_next_def stream_def)
  qed
qed

text \<open>
  The loop \<^verbatim>\<open>for item in prefetch_generator\<close> with every call waited for: the items returned
  before \<^verbatim>\<open>StopIteration\<close>, and the generator the loop leaves behind. \<open>ks\<close> gives the worker's
  steps before each call. The result is \<open>None\<close> when a call never returns.
\<close>

function for_loop :: "nat list \<Rightarrow> 'a PrefetchGenerator \<Rightarrow> ('a list \<times> 'a PrefetchGenerator) option" where
  "for_loop ks g =
     (case await_next (ahead ks) g of
        None \<Rightarrow> None
      | Some (StopIteration, g') \<Rightarrow> Some ([], g')
      | Some (Returns item, g') \<Rightarrow>
          (case for_loop (tl ks) g' of
             None \<Rightarrow> None
           | Some (items, g'') \<Rightarrow> Some (item # items, g'')))"
  by pat_completeness auto
termination
  by (relation "measure (\<lambda>(ks, g). length (stream g))") (auto dest: await_next_stream)

declare for_loop.simps [simp del]

lemma for_loop_stream:
  "stream g = vs \<Longrightarrow> None \<in> set vs \<Longrightarrow>
   \<exists>g'. for_loop ks g = Some (map the (takeWhile (\<lambda>v. v \<noteq> None) vs), g')
       \<and> stream g' = tl (dropWhile (\<lambda>v. v \<noteq> None) vs)"
proof (induction vs arbitrary: g ks)
  case Nil
  then show ?case by simp
next
  case (Cons v vs)
  from Cons.prems have "await_next (ahead ks) g \<noteq> None"
    by (simp add: await_next_blocks)
  then obtain out g1 where a: "await_next (ahead ks) g = Some (out, g1)"
    by auto
  from await_next_stream [OF a] Cons.prems have v: "v = value_of out" and s1: "stream g1 = vs"
    by simp_all
  show ?case
  proof (cases out)
    case (Returns x)
    with v Cons.prems have "None \<in> set vs" by auto
    from Cons.IH [OF s1 this, of "tl ks"] obtain g' where
      "for_loop (tl ks) g1 = Some (map the (takeWhile (\<lambda>v. v \<noteq> None) vs), g')"
      "stream g' = tl (dropWhile (\<lambda>v. v \<noteq> None) vs)" by blast
    with a Returns v show ?thesis
      by (subst for_loop.simps) simp
  next
    case StopIteration
    with a v s1 show ?thesis
      by (subst for_loop.simps) simp
  qed
qed

lemma for_loop_items_prefix:
  "map value_of cs @ rest = vs \<Longrightarrow>
   prefix (for_loop_items cs) (map the (takeWhile (\<lambda>v. v \<noteq> None) vs))"
proof (induction cs arbitrary: vs)
  case Nil
  then show ?case by simp
next
  case (Cons c cs)
  then show ?case by (cases c) auto
qed

lemma for_loop_items_complete:
  "map value_of cs @ rest = vs \<Longrightarrow> StopIteration \<in> set cs \<Longrightarrow>
   for_loop_items cs = map the (takeWhile (\<lambda>v. v \<noteq> None) vs)"
proof (induction cs arbitrary: vs)
  case Nil
  then show ?case by simp
next
  case (Cons c cs)
  then show ?case by (cases c) auto
qed

text \<open>A call that is waited for is an interleaving of worker steps and one consumer step.\<close>

lemma exec_append: "exec (sch @ sch') s = exec sch' (exec sch s)"
  by (induction sch arbitrary: s) simp_all

lemma worker_run_blocked: "run_step g = None \<Longrightarrow> worker_run k g = g"
  by (cases k) simp_all

lemma exec_worker_run: "exec (replicate k Worker) s = s\<lparr>gen := worker_run k (gen s)\<rparr>"
proof (induction k arbitrary: s)
  case 0
  then show ?case by simp
next
  case (Suc k)
  show ?case
  proof (cases "run_step (gen s)")
    case None
    then show ?thesis
      using Suc [of s] by (simp add: step_def worker_run_blocked)
  next
    case (Some g)
    then show ?thesis
      using Suc [of "s\<lparr>gen := g\<rparr>"] by (simp add: step_def)
  qed
qed

lemma await_next_interleaving:
  assumes "await_next k g = Some (out, g')"
  shows "\<exists>sch. exec sch \<lparr>gen = g, calls = cs\<rparr> = \<lparr>gen = g', calls = cs @ [out]\<rparr>"
proof (cases "queue (worker_run k g)")
  case Nil
  with assms obtain g2 where "run_step (worker_run k g) = Some g2" "PrefetchGenerator_next g2 = Some (out, g')"
    by (auto simp: await_next_def split: option.splits)
  then have "exec (replicate k Worker @ [Worker, Consumer]) \<lparr>gen = g, calls = cs\<rparr> = \<lparr>gen = g', calls = cs @ [out]\<rparr>"
    by (simp add: exec_append exec_worker_run step_def)
  then show ?thesis ..
next
  case (Cons v q)
  with assms have "PrefetchGenerator_next (worker_run k g) = Some (out, g')"
    by (auto simp: await_next_def)
  then have "exec (replicate k Worker @ [Consumer]) \<lparr>gen = g, calls = cs\<rparr> = \<lparr>gen = g', calls = cs @ [out]\<rparr>"
    by (simp add: exec_append exec_worker_run step_def)
  then show ?thesis ..
qed

text \<open>
  C2. For every queue size \<open>N \<ge> 1\<close> and every interleaving of the worker and the consumer,
  the queue never holds more than \<open>N\<close> entries; on a queue that holds \<open>N\<close> entries the worker
  waits, and its step changes nothing; no item is dropped: the outcomes of the calls so far,
  the queue and what the worker has still to put are always the input followed by the
  final \<^verbatim>\<open>None\<close>, in this order.
\<close>

theorem queue_bounded_and_blocking:
  assumes "1 \<le> N"
  shows "int (length (queue (gen (exec sch (start xs N))))) \<le> N
       \<and> (int (length (queue (gen (exec sch (start xs N))))) = N \<longrightarrow>
            run_step (gen (exec sch (start xs N))) = None
          \<and> step Worker (exec sch (start xs N)) = exec sch (start xs N))
       \<and> map value_of (calls (exec sch (start xs N))) @ queue (gen (exec sch (start xs N)))
            @ pending (gen (exec sch (start xs N))) = xs @ [None]"
proof -
  let ?s = "exec sch (start xs N)"
  have m: "maxsize (gen ?s) = N"
    by (simp add: exec_maxsize start_def PrefetchGenerator_init_def)
  have "int (length (queue (gen (start xs N)))) \<le> maxsize (gen (start xs N))"
    using assms by (simp add: start_def PrefetchGenerator_init_def)
  moreover have "0 < maxsize (gen (start xs N))"
    using assms by (simp add: start_def PrefetchGenerator_init_def)
  ultimately have b: "int (length (queue (gen ?s))) \<le> N"
    using exec_bounded [of "start xs N" sch] m by simp
  have f: "run_step (gen ?s) = None \<and> step Worker ?s = ?s"
    if "int (length (queue (gen ?s))) = N"
  proof -
    from that assms m have "full (gen ?s)" by (simp add: full_def)
    then have "run_step (gen ?s) = None" by (rule full_blocks)
    then show ?thesis by (simp add: step_def)
  qed
  have c: "map value_of (calls ?s) @ queue (gen ?s) @ pending (gen ?s) = xs @ [None]"
    using exec_conserves [of sch "start xs N"] start_stream [of xs N]
    by (simp add: stream_def)
  from b f c show ?thesis by blast
qed

theorem queue_bounded_and_blocking_witness:
  "int (length (queue (gen (exec [Worker, Worker, Worker, Consumer, Worker] (start [Some (1::nat), Some 2, Some 3] 2))))) \<le> 2
   \<and> queue (gen (exec [Worker, Worker, Worker] (start [Some (1::nat), Some 2, Some 3] 2))) = [Some 1, Some 2]
   \<and> run_step (gen (exec [Worker, Worker] (start [Some (1::nat), Some 2, Some 3] 2))) = None"
  using queue_bounded_and_blocking [of 2 "[Worker, Worker, Worker, Consumer, Worker]" "[Some (1::nat), Some 2, Some 3]"]
    queue_bounded_and_blocking [of 2 "[Worker, Worker]" "[Some (1::nat), Some 2, Some 3]"]
  by (simp add: start_def PrefetchGenerator_init_def step_def run_step_def full_def
      PrefetchGenerator_next_def)

text \<open>
  C1 (as amended). For every finite input sequence none of whose items is \<^verbatim>\<open>None\<close>, every
  queue size and every interleaving: the loop over the generator, every call waited for,
  returns exactly the items of the input in their order; at every moment of every
  schedule the items the loop has got so far are an initial segment of the input, and they
  are the whole input once \<^verbatim>\<open>StopIteration\<close> has been raised.
\<close>

theorem drain_yields_input:
  "map_option fst (for_loop ks (PrefetchGenerator_init (map Some ys) N)) = Some ys
   \<and> prefix (for_loop_items (calls (exec sch (start (map Some ys) N)))) ys
   \<and> (StopIteration \<in> set (calls (exec sch (start (map Some ys) N))) \<longrightarrow>
        for_loop_items (calls (exec sch (start (map Some ys) N))) = ys)"
proof -
  let ?g = "PrefetchGenerator_init (map Some ys) N"
  let ?s = "exec sch (start (map Some ys) N)"
  have t: "map the (takeWhile (\<lambda>v. v \<noteq> None) (map Some ys @ [None])) = ys"
    by (induction ys) simp_all
  have "stream ?g = map Some ys @ [None]"
    by (simp add: PrefetchGenerator_init_def stream_def pending_def)
  from for_loop_stream [OF this, of ks] t have a: "map_option fst (for_loop ks ?g) = Some ys"
    by auto
  have c: "map value_of (calls ?s) @ stream (gen ?s) = map Some ys @ [None]"
    using exec_conserves [of sch "start (map Some ys) N"] start_stream [of "map Some ys" N]
    by simp
  from for_loop_items_prefix [OF c] t have p: "prefix (for_loop_items (calls ?s)) ys"
    by simp
  have e: "for_loop_items (calls ?s) = ys" if "StopIteration \<in> set (calls ?s)"
    using for_loop_items_complete [OF c that] t by simp
  from a p e show ?thesis by blast
qed

theorem drain_yields_input_witness:
  "map_option fst (for_loop [3, 0] (PrefetchGenerator_init (map Some [1::nat, 2, 3]) 2)) = Some [1, 2, 3]
   \<and> prefix [1::nat] [1, 2, 3]"
  using drain_yields_input [of "[3, 0]" "[1::nat, 2, 3]" 2 "[Worker, Consumer]"]
  by (simp add: start_def PrefetchGenerator_init_def step_def run_step_def full_def
      PrefetchGenerator_next_def)

text \<open>
  The claim as stated, for every finite input sequence, fails on a sequence with a
  \<^verbatim>\<open>None\<close> item: of the three items \<^verbatim>\<open>1, None, 2\<close> the loop delivers the first only.
\<close>

theorem drain_yields_input_counterexample:
  "map_option fst (for_loop [] (PrefetchGenerator_init [Some (1::nat), None, Some 2] 2)) = Some [1]
   \<and> map Some [1::nat] \<noteq> [Some 1, None, Some 2]"
  by (simp add: for_loop.simps await_next_def PrefetchGenerator_init_def run_step_def full_def
      PrefetchGenerator_next_def)

text \<open>
  C10. \<^verbatim>\<open>None\<close> is the end marker, so for every input sequence with a \<^verbatim>\<open>None\<close> item the loop
  over the generator ends at the first \<^verbatim>\<open>None\<close>: it delivers the longest initial segment
  without \<^verbatim>\<open>None\<close>, which is shorter than the input; what follows the first \<^verbatim>\<open>None\<close> stays
  behind in the generator; and in no interleaving does the loop get anything else.
\<close>

theorem none_item_ends_the_loop:
  assumes "None \<in> set xs"
  shows "map_option fst (for_loop ks (PrefetchGenerator_init xs N))
           = Some (map the (takeWhile (\<lambda>v. v \<noteq> None) xs))
       \<and> map_option (stream \<circ> snd) (for_loop ks (PrefetchGenerator_init xs N))
           = Some (tl (dropWhile (\<lambda>v. v \<noteq> None) xs) @ [None])
       \<and> length (takeWhile (\<lambda>v. v \<noteq> None) xs) < length xs
       \<and> prefix (for_loop_items (calls (exec sch (start xs N))))
            (map the (takeWhile (\<lambda>v. v \<noteq> None) xs))"
proof -
  let ?g = "PrefetchGenerator_init xs N"
  let ?s = "exec sch (start xs N)"
  from assms have t: "takeWhile (\<lambda>v. v \<noteq> None) (xs @ [None]) = takeWhile (\<lambda>v. v \<noteq> None) xs"
    by (simp add: takeWhile_append1)
  from assms have d: "dropWhile (\<lambda>v. v \<noteq> None) (xs @ [None]) = dropWhile (\<lambda>v. v \<noteq> None) xs @ [None]"
    by (simp add: dropWhile_append1)
  from assms have n: "dropWhile (\<lambda>v. v \<noteq> None) xs \<noteq> []"
    by (auto simp: dropWhile_eq_Nil_conv)
  have "stream ?g = xs @ [None]"
    by (simp add: PrefetchGenerator_init_def stream_def pending_def)
  from for_loop_stream [OF this, of ks] t d n
  have a: "map_option fst (for_loop ks ?g) = Some (map the (takeWhile (\<lambda>v. v \<noteq> None) xs))"
    and b: "map_option (stream \<circ> snd) (for_loop ks ?g) = Some (tl (dropWhile (\<lambda>v. v \<noteq> None) xs) @ [None])"
    by auto
  have l: "length (takeWhile (\<lambda>v. v \<noteq> None) xs) < length xs"
    using assms by (induction xs) auto
  have c: "map value_of (calls ?s) @ stream (gen ?s) = xs @ [None]"
    using exec_conserves [of sch "start xs N"] start_stream [of xs N] by simp
  from for_loop_items_prefix [OF c] t
  have p: "prefix (for_loop_items (calls ?s)) (map the (takeWhile (\<lambda>v. v \<noteq> None) xs))"
    by simp
  from a b l p show ?thesis by blast
qed

theorem none_item_ends_the_loop_witness:
  "None \<in> set [Some (1::nat), None, Some 2]
   \<and> map_option fst (for_loop [1] (PrefetchGenerator_init [Some (1::nat), None, Some 2] 1)) = Some [1]
   \<and> map_option (stream \<circ> snd) (for_loop [1] (PrefetchGenerator_init [Some (1::nat), None, Some 2] 1))
       = Some [Some 2, None]"
  using none_item_ends_the_loop [of "[Some (1::nat), None, Some 2]" "[1]" 1 "[]"]
  by simp


section \<open>The datasets\<close>

text \<open>
  The exceptions of the model. Each of them is a subclass of Python's \<^verbatim>\<open>Exception\<close>.
  \<open>CropTooLarge\<close> and \<open>InvalidScaleFactor\<close> are the names the specification gives to
  failures of the image functions.
\<close>

datatype exn =
  IndexError | ValueError | ZeroDivisionError | AttributeError | FileNotFoundError
  | CropTooLarge | InvalidScaleFactor

text \<open>Python's \<^verbatim>\<open>xs[i]\<close>: a negative index counts from the end; out of range raises.\<close>

definition list_getitem :: "'a list \<Rightarrow> int \<Rightarrow> exn + 'a" where
  "list_getitem xs i =
     (if 0 \<le> i \<and> i < int (length xs) then Inr (xs ! nat i)
      else if i < 0 \<and> - int (length xs) \<le> i then Inr (xs ! nat (int (length xs) + i))
      else Inl IndexError)"

text \<open>
  The module \<^verbatim>\<open>imgproc\<close> is imported by \<^verbatim>\<open>dataset.py\<close> and is not part of the sources: its
  functions are parameters. A function that draws random numbers takes the state \<open>'r\<close> of the
  random number generator and returns the new one; a function that raises returns \<open>Inl\<close>.
\<close>

record ('img, 't, 'r) imgproc =
  random_crop :: "'img \<Rightarrow> 'img \<Rightarrow> int \<Rightarrow> 'r \<Rightarrow> (exn + 'img \<times> 'img) \<times> 'r"
  random_rotate :: "'img \<Rightarrow> 'img \<Rightarrow> int list \<Rightarrow> 'r \<Rightarrow> (exn + 'img \<times> 'img) \<times> 'r"
  random_horizontally_flip :: "'img \<Rightarrow> 'img \<Rightarrow> real \<Rightarrow> 'r \<Rightarrow> (exn + 'img \<times> 'img) \<times> 'r"
  random_vertically_flip :: "'img \<Rightarrow> 'img \<Rightarrow> real \<Rightarrow> 'r \<Rightarrow> (exn + 'img \<times> 'img) \<times> 'r"
  center_crop :: "'img \<Rightarrow> 'img \<Rightarrow> int \<Rightarrow> exn + 'img \<times> 'img"
  image2tensor :: "'img \<Rightarrow> bool \<Rightarrow> bool \<Rightarrow> exn + 't"
  bgr2ycbcr :: "'img \<Rightarrow> bool \<Rightarrow> exn + 'img"
  imresize :: "'img \<Rightarrow> real \<Rightarrow> exn + 'img"

text \<open>What a call can change besides the object: the random number generator and the console.\<close>

record ('img, 'r) world =
  rng :: 'r
  stdout :: "(int \<times> 'img) list"

subsection \<open>TrainValidImageDataset\<close>

record 'img TrainValidImageDataset =
  lr_image_file_names :: "string list"
  hr_image_file_names :: "string list"
  image_size :: int
  mode :: string
  lr_datasets :: "'img list"
  hr_datasets :: "'img list"

text \<open>Lines 81 to 84 of \<^verbatim>\<open>__getitem__\<close>: both images become tensors, returned as a dictionary.\<close>

definition to_tensors ::
  "('img, 't, 'r) imgproc \<Rightarrow> 'img \<Rightarrow> 'img \<Rightarrow> exn + (string \<times> 't) list" where
  "to_tensors ip lr_y_image hr_y_image =
     (case image2tensor ip lr_y_image False False of
        Inl e \<Rightarrow> Inl e
      | Inr lr_y_tensor \<Rightarrow>
          (case image2tensor ip hr_y_image False False of
             Inl e \<Rightarrow> Inl e
           | Inr hr_y_tensor \<Rightarrow> Inr [(''lr'', lr_y_tensor), (''hr'', hr_y_tensor)]))"

text \<open>Lines 71 to 73 and 81 to 84: rotation, the two flips, the tensors.\<close>

definition rotate_flip_to_tensors ::
  "('img, 't, 'r) imgproc \<Rightarrow> 'img \<Rightarrow> 'img \<Rightarrow> ('img, 'r) world
     \<Rightarrow> (exn + (string \<times> 't) list) \<times> ('img, 'r) world" where
  "rotate_flip_to_tensors ip lr_y_image hr_y_image w =
     (case random_rotate ip lr_y_image hr_y_image [0, 90, 180, 270] (rng w) of
        (Inl e, r1) \<Rightarrow> (Inl e, w\<lparr>rng := r1\<rparr>)
      | (Inr (lr1, hr1), r1) \<Rightarrow>
          (case random_horizontally_flip ip lr1 hr1 0.5 r1 of
             (Inl e, r2) \<Rightarrow> (Inl e, w\<lparr>rng := r2\<rparr>)
           | (Inr (lr2, hr2), r2) \<Rightarrow>
               (case random_vertically_flip ip lr2 hr2 0.5 r2 of
                  (Inl e, r3) \<Rightarrow> (Inl e, w\<lparr>rng := r3\<rparr>)
                | (Inr (lr3, hr3), r3) \<Rightarrow> (to_tensors ip lr3 hr3, w\<lparr>rng := r3\<rparr>))))"

text \<open>
  \<^verbatim>\<open>__getitem__\<close>. In mode \<^verbatim>\<open>Train\<close> the call of \<^verbatim>\<open>random_crop\<close> stands in a \<^verbatim>\<open>try\<close> whose
  handler catches every \<^verbatim>\<open>Exception\<close>, prints the index and the low resolution image, and
  goes on: the two variables keep the images read from the lists.
\<close>

definition TrainValidImageDataset_getitem ::
  "('img, 't, 'r) imgproc \<Rightarrow> 'img TrainValidImageDataset \<Rightarrow> int \<Rightarrow> ('img, 'r) world
     \<Rightarrow> (exn + (string \<times> 't) list) \<times> ('img, 'r) world" where
  "TrainValidImageDataset_getitem ip ds batch_index w =
     (case list_getitem (lr_datasets ds) batch_index of
        Inl e \<Rightarrow> (Inl e, w)
      | Inr lr_y_image \<Rightarrow>
     (case list_getitem (hr_datasets ds) batch_index of
        Inl e \<Rightarrow> (Inl e, w)
      | Inr hr_y_image \<Rightarrow>
          if mode ds = ''Train'' then
            (case random_crop ip lr_y_image hr_y_image (image_size ds) (rng w) of
               (Inl e, r) \<Rightarrow>
                 rotate_flip_to_tensors ip lr_y_image hr_y_image
                   \<lparr>rng = r, stdout = stdout w @ [(batch_index, lr_y_image)]\<rparr>
             | (Inr (lr_crop, hr_crop), r) \<Rightarrow>
                 rotate_flip_to_tensors ip lr_crop hr_crop (w\<lparr>rng := r\<rparr>))
          else if mode ds = ''Valid'' then
            (case center_crop ip lr_y_image hr_y_image (image_size ds) of
               Inl e \<Rightarrow> (Inl e, w)
             | Inr (lr_crop, hr_crop) \<Rightarrow> (to_tensors ip lr_crop hr_crop, w))
          else (Inl ValueError, w)))"

definition TrainValidImageDataset_len :: "'img TrainValidImageDataset \<Rightarrow> nat" where
  "TrainValidImageDataset_len ds = length (lr_image_file_names ds)"

subsection \<open>The image functions on extents\<close>

text \<open>
  Modelled from the spec: the functions of the missing module \<^verbatim>\<open>imgproc\<close>, on the extents
  (height, width) of images only; the specification describes no pixel value. The random
  number generator is the list of the numbers it will draw.
  \<^item> \<open>random_crop\<close> "fails with CropTooLarge if size exceeds either image's dimension";
    otherwise it cuts a patch of \<open>size\<close> by \<open>size\<close> from the low resolution image at a drawn
    offset, and the patch "consistent with the relative scale" from the other image.
  \<^item> \<open>random_rotate\<close> "selects one angle uniformly from a provided discrete set";
    a rotation by 90 or 270 degrees exchanges height and width.
  \<^item> The flips draw a number and keep the extents.
  \<^item> \<open>center_crop\<close> "yields outputs of size (c,c) and (c*s,c*s)".
  \<^item> \<open>resample(image, factor)\<close> multiplies both extents by the factor; the specification
    does not say how a fraction of a pixel is rounded, so the rounding is the parameter
    \<open>rnd\<close>.
  \<^item> The colour conversion and the conversion to a tensor keep the extents.
\<close>

type_synonym extent = "nat \<times> nat"

fun draw :: "nat list \<Rightarrow> nat \<times> nat list" where
  "draw [] = (0, [])"
| "draw (d # ds) = (d, ds)"

definition too_large :: "int \<Rightarrow> extent \<Rightarrow> bool" where
  "too_large patch img = (int (fst img) < patch \<or> int (snd img) < patch)"

definition crop_extents :: "extent \<Rightarrow> extent \<Rightarrow> int \<Rightarrow> extent \<times> extent" where
  "crop_extents lr hr patch =
     (let s = (if fst lr = 0 then 1 else fst hr div fst lr)
      in ((nat patch, nat patch), (nat patch * s, nat patch * s)))"

definition random_crop_extents ::
  "extent \<Rightarrow> extent \<Rightarrow> int \<Rightarrow> nat list \<Rightarrow> (exn + extent \<times> extent) \<times> nat list" where
  "random_crop_extents lr hr patch r =
     (if too_large patch lr \<or> too_large patch hr then (Inl CropTooLarge, r)
      else (Inr (crop_extents lr hr patch), snd (draw (snd (draw r)))))"

definition rotate_extent :: "int \<Rightarrow> extent \<Rightarrow> extent" where
  "rotate_extent angle img = (if angle mod 180 = 90 then (snd img, fst img) else img)"

definition random_rotate_extents ::
  "extent \<Rightarrow> extent \<Rightarrow> int list \<Rightarrow> nat list \<Rightarrow> (exn + extent \<times> extent) \<times> nat list" where
  "random_rotate_extents lr hr angles r =
     (if angles = [] then (Inl IndexError, r)
      else (let angle = angles ! (fst (draw r) mod length angles)
            in (Inr (rotate_extent angle lr, rotate_extent angle hr), snd (draw r))))"

definition random_flip_extents ::
  "extent \<Rightarrow> extent \<Rightarrow> real \<Rightarrow> nat list \<Rightarrow> (exn + extent \<times> extent) \<times> nat list" where
  "random_flip_extents lr hr p r = (Inr (lr, hr), snd (draw r))"

definition center_crop_extents :: "extent \<Rightarrow> extent \<Rightarrow> int \<Rightarrow> exn + extent \<times> extent" where
  "center_crop_extents lr hr patch =
     (if too_large patch lr \<or> too_large patch hr then Inl CropTooLarge
      else Inr (crop_extents lr hr patch))"

definition imresize_extent :: "(real \<Rightarrow> nat) \<Rightarrow> extent \<Rightarrow> real \<Rightarrow> exn + extent" where
  "imresize_extent rnd img factor = Inr (rnd (real (fst img) * factor), rnd (real (snd img) * factor))"

definition imgproc_extents :: "(real \<Rightarrow> nat) \<Rightarrow> (extent, extent, nat list) imgproc" where
  "imgproc_extents rnd =
     \<lparr>random_crop = random_crop_extents,
      random_rotate = random_rotate_extents,
      random_horizontally_flip = random_flip_extents,
      random_vertically_flip = random_flip_extents,
      center_crop = center_crop_extents,
      image2tensor = (\<lambda>img range_norm half. Inr img),
      bgr2ycbcr = (\<lambda>img use_y_channel. Inr img),
      imresize = imresize_extent rnd\<rparr>"

definition round_up :: "real \<Rightarrow> nat" where
  "round_up x = nat \<lceil>x\<rceil>"

text \<open>
  C4 (as amended). In mode \<^verbatim>\<open>Train\<close>, when \<^verbatim>\<open>random_crop\<close> fails on a sample (with
  \<open>CropTooLarge\<close> or any other exception), \<^verbatim>\<open>__getitem__\<close> does not fail with it: it prints
  the index and the low resolution image and carries on with the images as they were
  read, not cropped, through the rotation, the flips and the conversion to tensors.
\<close>

theorem crop_failure_is_caught:
  assumes "mode ds = ''Train''"
    and "list_getitem (lr_datasets ds) i = Inr lr"
    and "list_getitem (hr_datasets ds) i = Inr hr"
    and "random_crop ip lr hr (image_size ds) (rng w) = (Inl e, r)"
  shows "TrainValidImageDataset_getitem ip ds i w =
           rotate_flip_to_tensors ip lr hr \<lparr>rng = r, stdout = stdout w @ [(i, lr)]\<rparr>"
  using assms by (simp add: TrainValidImageDataset_getitem_def)

theorem crop_failure_is_caught_witness:
  "random_crop (imgproc_extents round_up) (30, 40) (30, 40) 41 [1, 0, 0] = (Inl CropTooLarge, [1, 0, 0])
   \<and> TrainValidImageDataset_getitem (imgproc_extents round_up)
        \<lparr>lr_image_file_names = [''a.png''], hr_image_file_names = [''a.png''], image_size = 41,
         mode = ''Train'', lr_datasets = [(30, 40)], hr_datasets = [(30, 40)]\<rparr>
        0 \<lparr>rng = [1, 0, 0], stdout = []\<rparr>
      = rotate_flip_to_tensors (imgproc_extents round_up) (30, 40) (30, 40)
          \<lparr>rng = [1, 0, 0], stdout = [(0, (30, 40))]\<rparr>"
  using crop_failure_is_caught [where ip = "imgproc_extents round_up"
      and ds = "\<lparr>lr_image_file_names = [''a.png''], hr_image_file_names = [''a.png''], image_size = 41,
         mode = ''Train'', lr_datasets = [(30, 40)], hr_datasets = [(30, 40)]\<rparr>"
      and i = 0 and lr = "(30, 40)" and hr = "(30, 40)" and w = "\<lparr>rng = [1, 0, 0], stdout = []\<rparr>"
      and e = CropTooLarge and r = "[1, 0, 0]"]
  by (simp add: list_getitem_def imgproc_extents_def random_crop_extents_def too_large_def)

text \<open>
  The claim as stated fails on an image of 30 by 40 with a crop size of 41: \<^verbatim>\<open>random_crop\<close>
  fails, and \<^verbatim>\<open>__getitem__\<close> returns the tensors of the image, rotated and not cropped,
  after printing one line.
\<close>

theorem crop_failure_is_caught_counterexample:
  "TrainValidImageDataset_getitem (imgproc_extents round_up)
      \<lparr>lr_image_file_names = [''a.png''], hr_image_file_names = [''a.png''], image_size = 41,
       mode = ''Train'', lr_datasets = [(30, 40)], hr_datasets = [(30, 40)]\<rparr>
      0 \<lparr>rng = [1, 0, 0], stdout = []\<rparr>
   = (Inr [(''lr'', (40, 30)), (''hr'', (40, 30))], \<lparr>rng = [], stdout = [(0, (30, 40))]\<rparr>)"
  by (simp add: TrainValidImageDataset_getitem_def list_getitem_def imgproc_extents_def
      random_crop_extents_def too_large_def rotate_flip_to_tensors_def random_rotate_extents_def
      rotate_extent_def random_flip_extents_def to_tensors_def)

subsection \<open>TestImageDataset\<close>

text \<open>
  The directory and the files the constructor reads: \<open>listing\<close> gives \<^verbatim>\<open>os.listdir\<close> of the
  directories that exist, \<open>files\<close> the decoded image of each readable file, as
  \<^verbatim>\<open>cv2.imread(...).astype(np.float32) / 255.\<close> returns it. \<^verbatim>\<open>cv2.imread\<close> returns \<^verbatim>\<open>None\<close> for a
  file it cannot read, and \<^verbatim>\<open>None.astype\<close> raises.
\<close>

record 'img filesystem =
  listing :: "(string \<times> string list) list"
  files :: "(string \<times> 'img) list"

definition os_path_join :: "string \<Rightarrow> string \<Rightarrow> string" where
  "os_path_join dir name =
     (if dir = [] then name
      else if last dir = CHR ''/'' then dir @ name
      else dir @ ''/'' @ name)"

record 't TestImageDataset =
  image_file_names :: "string list"
  upscale_factor :: int
  lr_datasets :: "'t list"
  hr_datasets :: "'t list"

text \<open>
  \<^verbatim>\<open>1 / self.upscale_factor\<close> divides two integers and gives a double: the quotient rounded
  to the nearest number of 53 binary digits, a tie to the one with an even last digit,
  with steps of \<open>2 ^ - 1074\<close> near zero. \<open>bit_length\<close> is \<^verbatim>\<open>int.bit_length\<close>; \<open>round_half_even a b\<close>
  is the whole number nearest to \<open>a / b\<close> for a positive \<open>b\<close>; \<open>float_reciprocal n\<close> is the double
  \<^verbatim>\<open>1 / n\<close> for an integer \<open>n\<close> other than zero.
\<close>

fun bit_length :: "nat \<Rightarrow> nat" where
  "bit_length n = (if n = 0 then 0 else Suc (bit_length (n div 2)))"

declare bit_length.simps [simp del]

definition round_half_even :: "int \<Rightarrow> int \<Rightarrow> int" where
  "round_half_even a b =
     (let q = a div b; r = a mod b
      in if 2 * r < b then q else if b < 2 * r then q + 1 else if even q then q else q + 1)"

definition float_reciprocal :: "int \<Rightarrow> real" where
  "float_reciprocal n =
     (let a = \<bar>n\<bar>;
          s = min (bit_length (nat (a - 1)) + 52) 1074;
          m = round_half_even (2 ^ s) a
      in (if n < 0 then - 1 else 1) * real_of_int m / 2 ^ s)"

text \<open>
  The body of the loop of \<^verbatim>\<open>read_image_to_memory\<close> for one file name: the tensors of the
  low and the high resolution image. \<^verbatim>\<open>1 / self.upscale_factor\<close> is evaluated before
  \<^verbatim>\<open>imresize\<close> is called and raises on zero.
\<close>

definition read_image ::
  "('img, 't, 'r) imgproc \<Rightarrow> 'img filesystem \<Rightarrow> int \<Rightarrow> string \<Rightarrow> exn + 't \<times> 't" where
  "read_image ip fs factor image_file_name =
     (case map_of (files fs) image_file_name of
        None \<Rightarrow> Inl AttributeError
      | Some hr_image \<Rightarrow>
          if factor = 0 then Inl ZeroDivisionError
          else
     (case imresize ip hr_image (float_reciprocal factor) of
        Inl e \<Rightarrow> Inl e
      | Inr lr_small \<Rightarrow>
     (case imresize ip lr_small (real_of_int factor) of
        Inl e \<Rightarrow> Inl e
      | Inr lr_image \<Rightarrow>
     (case bgr2ycbcr ip lr_image True of
        Inl e \<Rightarrow> Inl e
      | Inr lr_y_image \<Rightarrow>
     (case bgr2ycbcr ip hr_image True of
        Inl e \<Rightarrow> Inl e
      | Inr hr_y_image \<Rightarrow>
     (case image2tensor ip lr_y_image False False of
        Inl e \<Rightarrow> Inl e
      | Inr lr_y_tensor \<Rightarrow>
     (case image2tensor ip hr_y_image False False of
        Inl e \<Rightarrow> Inl e
      | Inr hr_y_tensor \<Rightarrow> Inr (lr_y_tensor, hr_y_tensor))))))))"

text \<open>The loop of \<^verbatim>\<open>read_image_to_memory\<close> over the file names still to read.\<close>

fun read_image_to_memory ::
  "('img, 't, 'r) imgproc \<Rightarrow> 'img filesystem \<Rightarrow> string list \<Rightarrow> 't TestImageDataset
     \<Rightarrow> exn + 't TestImageDataset" where
  "read_image_to_memory ip fs [] ds = Inr ds"
| "read_image_to_memory ip fs (image_file_name # names) ds =
     (case read_image ip fs (upscale_factor ds) image_file_name of
        Inl e \<Rightarrow> Inl e
      | Inr (lr_y_tensor, hr_y_tensor) \<Rightarrow>
          read_image_to_memory ip fs names
            (ds\<lparr>lr_datasets := lr_datasets ds @ [lr_y_tensor],
                hr_datasets := hr_datasets ds @ [hr_y_tensor]\<rparr>))"

text \<open>\<^verbatim>\<open>__init__\<close>: an exception leaves no object.\<close>

definition TestImageDataset_init ::
  "('img, 't, 'r) imgproc \<Rightarrow> 'img filesystem \<Rightarrow> string \<Rightarrow> int \<Rightarrow> exn + 't TestImageDataset" where
  "TestImageDataset_init ip fs test_image_dir factor =
     (case map_of (listing fs) test_image_dir of
        None \<Rightarrow> Inl FileNotFoundError
      | Some names \<Rightarrow>
          read_image_to_memory ip fs (map (os_path_join test_image_dir) names)
            \<lparr>image_file_names = map (os_path_join test_image_dir) names,
             upscale_factor = factor, lr_datasets = [], hr_datasets = []\<rparr>)"

definition TestImageDataset_getitem :: "'t TestImageDataset \<Rightarrow> int \<Rightarrow> exn + (string \<times> 't) list" where
  "TestImageDataset_getitem ds batch_index =
     (case list_getitem (lr_datasets ds) batch_index of
        Inl e \<Rightarrow> Inl e
      | Inr lr_y_tensor \<Rightarrow>
          (case list_getitem (hr_datasets ds) batch_index of
             Inl e \<Rightarrow> Inl e
           | Inr hr_y_tensor \<Rightarrow> Inr [(''lr'', lr_y_tensor), (''hr'', hr_y_tensor)]))"

text \<open>
  C5 (as amended). The constructor does not check the scale factor. On an empty directory
  it succeeds for every scale factor, also one below 1; on a directory whose first file is
  readable a scale factor of zero fails with \<open>ZeroDivisionError\<close>, raised by the division
  \<^verbatim>\<open>1 / upscale_factor\<close>.
\<close>

theorem scale_factor_is_not_checked:
  "(map_of (listing fs) dir = Some [] \<longrightarrow>
      TestImageDataset_init ip fs dir factor
        = Inr \<lparr>image_file_names = [], upscale_factor = factor, lr_datasets = [], hr_datasets = []\<rparr>)
   \<and> (map_of (listing fs) dir = Some (name # names)
        \<and> map_of (files fs) (os_path_join dir name) = Some img \<longrightarrow>
      TestImageDataset_init ip fs dir 0 = Inl ZeroDivisionError)"
  by (simp add: TestImageDataset_init_def read_image_def)

theorem scale_factor_is_not_checked_witness:
  "TestImageDataset_init (imgproc_extents round_up) \<lparr>listing = [(''data/Set5'', [])], files = []\<rparr> ''data/Set5'' (- 3)
     = Inr \<lparr>image_file_names = [], upscale_factor = - 3, lr_datasets = [], hr_datasets = []\<rparr>
   \<and> TestImageDataset_init (imgproc_extents round_up)
       \<lparr>listing = [(''data/Set5'', [''a.png''])], files = [(''data/Set5/a.png'', (64, 64))]\<rparr> ''data/Set5'' 0
     = Inl ZeroDivisionError"
  using scale_factor_is_not_checked [where fs = "\<lparr>listing = [(''data/Set5'', [])], files = []\<rparr>"
      and dir = "''data/Set5''" and ip = "imgproc_extents round_up" and factor = "- 3"]
    scale_factor_is_not_checked [where fs = "\<lparr>listing = [(''data/Set5'', [''a.png''])], files = [(''data/Set5/a.png'', (64, 64))]\<rparr>"
      and dir = "''data/Set5''" and name = "''a.png''" and names = "[]" and img = "(64, 64)"
      and ip = "imgproc_extents round_up"]
  by (simp add: os_path_join_def)

text \<open>
  The claim as stated fails for the scale factor 0: on an empty directory the constructor
  returns a dataset, and on a directory with an image it fails with another exception.
\<close>

theorem scale_factor_is_not_checked_counterexample:
  "TestImageDataset_init (imgproc_extents round_up) \<lparr>listing = [(''data/Set5'', [])], files = []\<rparr> ''data/Set5'' 0
     = Inr \<lparr>image_file_names = [], upscale_factor = 0, lr_datasets = [], hr_datasets = []\<rparr>
   \<and> TestImageDataset_init (imgproc_extents round_up)
       \<lparr>listing = [(''data/Set5'', [''a.png''])], files = [(''data/Set5/a.png'', (64, 64))]\<rparr> ''data/Set5'' 0
     \<noteq> Inl InvalidScaleFactor"
  by (simp add: TestImageDataset_init_def read_image_def os_path_join_def)

lemma bit_length_pow2: "bit_length (2 ^ k - 1) = k"
proof (induction k)
  case 0
  show ?case by (simp add: bit_length.simps)
next
  case (Suc k)
  have p: "(1 :: nat) \<le> 2 ^ k" by simp
  have "(2 ^ Suc k - 1) div 2 = (2 ^ k - 1 :: nat)"
    using p unfolding power_Suc by arith
  moreover have "(2 ^ Suc k - 1 :: nat) \<noteq> 0"
    using p unfolding power_Suc by arith
  ultimately show ?case
    using Suc by (subst bit_length.simps) simp
qed

text \<open>The reciprocal of a power of two is a double: the division is exact.\<close>

lemma float_reciprocal_pow2:
  assumes "k \<le> 1022"
  shows "float_reciprocal (2 ^ k) = 1 / 2 ^ k"
proof -
  have a: "nat (\<bar>2 ^ k :: int\<bar> - 1) = 2 ^ k - 1"
    by (simp add: nat_diff_distrib nat_power_eq)
  have s: "min (k + 52) 1074 = k + 52" using assms by simp
  have d: "(2 :: int) ^ (k + 52) div 2 ^ k = 2 ^ 52" "(2 :: int) ^ (k + 52) mod 2 ^ k = 0"
    by (simp_all add: power_add)
  have m: "round_half_even (2 ^ (k + 52)) (2 ^ k) = 2 ^ 52"
    unfolding round_half_even_def Let_def d by simp
  have "float_reciprocal (2 ^ k) = real_of_int (2 ^ 52) / 2 ^ (k + 52)"
    unfolding float_reciprocal_def Let_def a bit_length_pow2 s by (simp add: m)
  also have "\<dots> = 1 / 2 ^ k"
    by (simp add: power_add)
  finally show ?thesis .
qed

lemma float_reciprocal_2: "float_reciprocal 2 = 1 / 2"
  using float_reciprocal_pow2 [of 1] by simp

text \<open>The reciprocal of 75 is no double: the nearest double is above it.\<close>

lemma float_reciprocal_75: "float_reciprocal 75 = 7686143364045647 / 2 ^ 59"
proof -
  have b: "bit_length (nat (\<bar>75\<bar> - 1)) = 7"
    by (simp add: bit_length.simps)
  show ?thesis
    unfolding float_reciprocal_def Let_def b by (simp add: round_half_even_def)
qed

lemma imresize_round_trip:
  assumes "\<forall>n. rnd (real n) = n" and "k \<le> 1022"
    and "2 ^ k dvd h" and "2 ^ k dvd w"
  shows "imresize_extent rnd (h, w) (float_reciprocal (2 ^ k)) = Inr (h div 2 ^ k, w div 2 ^ k)"
    and "imresize_extent rnd (h div 2 ^ k, w div 2 ^ k) (real_of_int (2 ^ k)) = Inr (h, w)"
proof -
  note f = float_reciprocal_pow2 [OF assms(2)]
  from assms(1) have r: "rnd (real n) = n" for n by simp
  have h1: "real h * (1 / 2 ^ k) = real (h div 2 ^ k)"
    using assms(3) by (simp add: real_of_nat_div)
  have w1: "real w * (1 / 2 ^ k) = real (w div 2 ^ k)"
    using assms(4) by (simp add: real_of_nat_div)
  have h2: "real (h div 2 ^ k) * real_of_int (2 ^ k) = real h"
    using assms(3) by (simp add: real_of_nat_div)
  have w2: "real (w div 2 ^ k) * real_of_int (2 ^ k) = real w"
    using assms(4) by (simp add: real_of_nat_div)
  show "imresize_extent rnd (h, w) (float_reciprocal (2 ^ k)) = Inr (h div 2 ^ k, w div 2 ^ k)"
    unfolding imresize_extent_def fst_conv snd_conv f h1 w1 r ..
  show "imresize_extent rnd (h div 2 ^ k, w div 2 ^ k) (real_of_int (2 ^ k)) = Inr (h, w)"
    unfolding imresize_extent_def fst_conv snd_conv h2 w2 r ..
qed

lemma read_image_round_trip:
  assumes "\<forall>n. rnd (real n) = n" and "k \<le> 1022"
    and "map_of (files fs) name = Some (h, w)"
    and "2 ^ k dvd h" and "2 ^ k dvd w"
  shows "read_image (imgproc_extents rnd) fs (2 ^ k) name = Inr ((h, w), (h, w))"
proof -
  note rt = imresize_round_trip [OF assms(1,2,4,5)]
  have "(2 :: int) ^ k \<noteq> 0" by simp
  then show ?thesis
    by (simp only: read_image_def imgproc_extents_def assms(3) rt option.case if_False
        imgproc.simps sum.case)
qed

lemma read_image_to_memory_round_trip:
  assumes "\<forall>n. rnd (real n) = n" and "k \<le> 1022" and "upscale_factor ds = 2 ^ k"
    and "\<forall>name \<in> set names. \<exists>h w. map_of (files fs) name = Some (h, w)
           \<and> 2 ^ k dvd h \<and> 2 ^ k dvd w"
  shows "read_image_to_memory (imgproc_extents rnd) fs names ds =
           Inr (ds\<lparr>lr_datasets := lr_datasets ds @ map (\<lambda>name. the (map_of (files fs) name)) names,
                   hr_datasets := hr_datasets ds @ map (\<lambda>name. the (map_of (files fs) name)) names\<rparr>)"
  using assms(3,4)
proof (induction names arbitrary: ds)
  case Nil
  then show ?case by simp
next
  case (Cons name names)
  from Cons.prems(2) obtain h w where hw: "map_of (files fs) name = Some (h, w)"
    "2 ^ k dvd h" "2 ^ k dvd w"
    by auto
  let ?ds = "ds\<lparr>lr_datasets := lr_datasets ds @ [(h, w)], hr_datasets := hr_datasets ds @ [(h, w)]\<rparr>"
  have r: "read_image (imgproc_extents rnd) fs (upscale_factor ds) name = Inr ((h, w), (h, w))"
    unfolding Cons.prems(1) using assms(1,2) hw by (rule read_image_round_trip)
  have "read_image_to_memory (imgproc_extents rnd) fs names ?ds =
          Inr (?ds\<lparr>lr_datasets := lr_datasets ?ds @ map (\<lambda>name. the (map_of (files fs) name)) names,
                  hr_datasets := hr_datasets ?ds @ map (\<lambda>name. the (map_of (files fs) name)) names\<rparr>)"
    using Cons.prems by (intro Cons.IH) simp_all
  with r hw(1) show ?case by simp
qed

definition round_down :: "real \<Rightarrow> nat" where
  "round_down x = nat \<lfloor>x\<rfloor>"

text \<open>
  C8 (as amended). With a scale factor that is a power of two, whose reciprocal the division
  \<^verbatim>\<open>1 / upscale_factor\<close> gives exactly, and images whose height and width are multiples of
  it, the constructor stores for every image a low resolution companion of the extents of
  the image itself: resampling by \<open>1 / scale\<close> and back by \<open>scale\<close> returns to the original
  extents, whatever the rounding of fractions of a pixel. For an image of 64 by 64 and a
  scale factor of 2 the companion is 64 by 64, not 32 by 32.
\<close>

theorem companion_has_original_extents:
  assumes "\<forall>n. rnd (real n) = n" and "k \<le> 1022"
    and "map_of (listing fs) dir = Some names"
    and "\<forall>name \<in> set names. \<exists>h w. map_of (files fs) (os_path_join dir name) = Some (h, w)
           \<and> 2 ^ k dvd h \<and> 2 ^ k dvd w"
  shows "TestImageDataset_init (imgproc_extents rnd) fs dir (2 ^ k) =
           Inr \<lparr>image_file_names = map (os_path_join dir) names, upscale_factor = 2 ^ k,
                lr_datasets = map (\<lambda>name. the (map_of (files fs) (os_path_join dir name))) names,
                hr_datasets = map (\<lambda>name. the (map_of (files fs) (os_path_join dir name))) names\<rparr>"
proof -
  let ?ds = "\<lparr>image_file_names = map (os_path_join dir) names, upscale_factor = 2 ^ k,
              lr_datasets = [], hr_datasets = []\<rparr> :: extent TestImageDataset"
  have "read_image_to_memory (imgproc_extents rnd) fs (map (os_path_join dir) names) ?ds =
          Inr (?ds\<lparr>lr_datasets := lr_datasets ?ds @ map (\<lambda>name. the (map_of (files fs) name)) (map (os_path_join dir) names),
                  hr_datasets := hr_datasets ?ds @ map (\<lambda>name. the (map_of (files fs) name)) (map (os_path_join dir) names)\<rparr>)"
    using assms(1,2,4) by (intro read_image_to_memory_round_trip [where k = k]) auto
  then show ?thesis
    using assms(3) by (simp add: TestImageDataset_init_def comp_def)
qed

lemma round_up_exact: "\<forall>n. round_up (real n) = n"
  by (simp add: round_up_def)

theorem companion_has_original_extents_witness:
  "TestImageDataset_init (imgproc_extents round_up)
       \<lparr>listing = [(''data/Set5'', [''a.png''])], files = [(''data/Set5/a.png'', (64, 64))]\<rparr> ''data/Set5'' 2
     = Inr \<lparr>image_file_names = [''data/Set5/a.png''], upscale_factor = 2,
            lr_datasets = [(64, 64)], hr_datasets = [(64, 64)]\<rparr>
   \<and> (64, 64) \<noteq> (32 :: nat, 32 :: nat)"
  using companion_has_original_extents [OF round_up_exact, where k = 1
      and fs = "\<lparr>listing = [(''data/Set5'', [''a.png''])], files = [(''data/Set5/a.png'', (64, 64))]\<rparr>"
      and dir = "''data/Set5''" and names = "[''a.png'']"]
  by (simp add: os_path_join_def)

text \<open>
  The general part of the claim as stated fails on an image of 65 by 65 with a scale factor
  of 2: half of 65 is no whole number of pixels, and twice a whole number is not 65. Rounded
  up the companion is 66 by 66, rounded down 64 by 64. It fails also on an image of 525 by
  525 with a scale factor of 75, of which 525 is a multiple: the double \<^verbatim>\<open>1 / 75\<close> is above
  the 75th part of 1, so 525 times it is above 7, and rounded up the companion is 600 by 600.
\<close>

theorem companion_has_original_extents_counterexample:
  "TestImageDataset_init (imgproc_extents round_up)
       \<lparr>listing = [(''data/Set5'', [''a.png''])], files = [(''data/Set5/a.png'', (65, 65))]\<rparr> ''data/Set5'' 2
     = Inr \<lparr>image_file_names = [''data/Set5/a.png''], upscale_factor = 2,
            lr_datasets = [(66, 66)], hr_datasets = [(65, 65)]\<rparr>
   \<and> TestImageDataset_init (imgproc_extents round_down)
       \<lparr>listing = [(''data/Set5'', [''a.png''])], files = [(''data/Set5/a.png'', (65, 65))]\<rparr> ''data/Set5'' 2
     = Inr \<lparr>image_file_names = [''data/Set5/a.png''], upscale_factor = 2,
            lr_datasets = [(64, 64)], hr_datasets = [(65, 65)]\<rparr>
   \<and> TestImageDataset_init (imgproc_extents round_up)
       \<lparr>listing = [(''data/Set5'', [''a.png''])], files = [(''data/Set5/a.png'', (525, 525))]\<rparr> ''data/Set5'' 75
     = Inr \<lparr>image_file_names = [''data/Set5/a.png''], upscale_factor = 75,
            lr_datasets = [(600, 600)], hr_datasets = [(525, 525)]\<rparr>"
  by (simp add: TestImageDataset_init_def read_image_def os_path_join_def imgproc_extents_def
      imresize_extent_def round_up_def round_down_def float_reciprocal_2 float_reciprocal_75)


section \<open>The prefetchers\<close>

text \<open>
  The class \<^verbatim>\<open>DataLoader\<close> of torch is no part of the sources. The prefetchers use \<^verbatim>\<open>iter\<close> and
  \<^verbatim>\<open>len\<close> of a loader and \<^verbatim>\<open>next\<close> of its iterator. A loader over a fixed source is the list of
  the batches an iteration yields; the iterator of a plain \<^verbatim>\<open>DataLoader\<close> yields them in
  turn and then raises \<^verbatim>\<open>StopIteration\<close> at every call. \<^verbatim>\<open>PrefetchDataLoader\<close> is the subclass of
  the sources, whose \<^verbatim>\<open>__iter__\<close> wraps that iterator in a \<^verbatim>\<open>PrefetchGenerator\<close>.
\<close>

datatype 'b dataloader = DataLoader "'b list" | PrefetchDataLoader int "'b list"

datatype 'b iterator = ListIter "'b list" | Prefetch "'b PrefetchGenerator"

fun batches_of :: "'b dataloader \<Rightarrow> 'b list" where
  "batches_of (DataLoader bs) = bs"
| "batches_of (PrefetchDataLoader num_data_prefetch_queue bs) = bs"

fun dataloader_iter :: "'b dataloader \<Rightarrow> 'b iterator" where
  "dataloader_iter (DataLoader bs) = ListIter bs"
| "dataloader_iter (PrefetchDataLoader num_data_prefetch_queue bs) =
     Prefetch (PrefetchGenerator_init (map Some bs) num_data_prefetch_queue)"

text \<open>
  \<^verbatim>\<open>next(self.data)\<close>, waited for; \<open>k\<close> is the number of steps the worker of a
  \<^verbatim>\<open>PrefetchGenerator\<close> is given before the call. \<open>None\<close>: the call never returns.
\<close>

fun iterator_next :: "nat \<Rightarrow> 'b iterator \<Rightarrow> ('b outcome \<times> 'b iterator) option" where
  "iterator_next k (ListIter []) = Some (StopIteration, ListIter [])"
| "iterator_next k (ListIter (b # bs)) = Some (Returns b, ListIter bs)"
| "iterator_next k (Prefetch g) =
     (case await_next k g of None \<Rightarrow> None | Some (out, g') \<Rightarrow> Some (out, Prefetch g'))"

subsection \<open>CPUPrefetcher\<close>

record 'b CPUPrefetcher =
  original_dataloader :: "'b dataloader"
  data :: "'b iterator"

definition CPUPrefetcher_init :: "'b dataloader \<Rightarrow> 'b CPUPrefetcher" where
  "CPUPrefetcher_init dataloader =
     \<lparr>original_dataloader = dataloader, data = dataloader_iter dataloader\<rparr>"

text \<open>\<^verbatim>\<open>next\<close>: the item, or \<^verbatim>\<open>None\<close> when the iterator raises \<^verbatim>\<open>StopIteration\<close>.\<close>

definition CPUPrefetcher_next ::
  "nat \<Rightarrow> 'b CPUPrefetcher \<Rightarrow> ('b option \<times> 'b CPUPrefetcher) option" where
  "CPUPrefetcher_next k p =
     (case iterator_next k (data p) of
        None \<Rightarrow> None
      | Some (Returns b, it) \<Rightarrow> Some (Some b, p\<lparr>data := it\<rparr>)
      | Some (StopIteration, it) \<Rightarrow> Some (None, p\<lparr>data := it\<rparr>))"

definition CPUPrefetcher_reset :: "'b CPUPrefetcher \<Rightarrow> 'b CPUPrefetcher" where
  "CPUPrefetcher_reset p = p\<lparr>data := dataloader_iter (original_dataloader p)\<rparr>"

definition CPUPrefetcher_len :: "'b CPUPrefetcher \<Rightarrow> nat" where
  "CPUPrefetcher_len p = length (batches_of (original_dataloader p))"

subsection \<open>CUDAPrefetcher\<close>

text \<open>
  A batch is a dictionary; a value of it is a tensor, which lives on a device, or something
  else. \<^verbatim>\<open>preload\<close> sends every tensor of the batch to the device of the prefetcher.
\<close>

datatype 'v pyvalue = Tensor string 'v | NoTensor 'v

type_synonym 'v batch = "(string \<times> 'v pyvalue) list"

fun to_device :: "string \<Rightarrow> 'v pyvalue \<Rightarrow> 'v pyvalue" where
  "to_device device (Tensor d x) = Tensor device x"
| "to_device device (NoTensor x) = NoTensor x"

definition batch_to_device :: "string \<Rightarrow> 'v batch \<Rightarrow> 'v batch" where
  "batch_to_device device batch = map (\<lambda>(k, v). (k, to_device device v)) batch"

text \<open>
  The fields of \<^verbatim>\<open>CUDAPrefetcher\<close> are those of \<^verbatim>\<open>CPUPrefetcher\<close>, the staged batch and the
  device. The copy stream orders the copies in time and holds no data.
\<close>

record 'v CUDAPrefetcher = "'v batch CPUPrefetcher" +
  batch_data :: "'v batch option"
  device :: string

definition preload :: "nat \<Rightarrow> 'v CUDAPrefetcher \<Rightarrow> 'v CUDAPrefetcher option" where
  "preload k p =
     (case iterator_next k (data p) of
        None \<Rightarrow> None
      | Some (StopIteration, it) \<Rightarrow> Some (p\<lparr>data := it, batch_data := None\<rparr>)
      | Some (Returns b, it) \<Rightarrow>
          Some (p\<lparr>data := it, batch_data := Some (batch_to_device (device p) b)\<rparr>))"

definition CUDAPrefetcher_init ::
  "nat \<Rightarrow> 'v batch dataloader \<Rightarrow> string \<Rightarrow> 'v CUDAPrefetcher option" where
  "CUDAPrefetcher_init k dataloader dev =
     preload k \<lparr>original_dataloader = dataloader, data = dataloader_iter dataloader,
                batch_data = None, device = dev\<rparr>"

definition CUDAPrefetcher_next ::
  "nat \<Rightarrow> 'v CUDAPrefetcher \<Rightarrow> ('v batch option \<times> 'v CUDAPrefetcher) option" where
  "CUDAPrefetcher_next k p =
     (case preload k p of None \<Rightarrow> None | Some p' \<Rightarrow> Some (batch_data p, p'))"

definition CUDAPrefetcher_reset :: "nat \<Rightarrow> 'v CUDAPrefetcher \<Rightarrow> 'v CUDAPrefetcher option" where
  "CUDAPrefetcher_reset k p = preload k (p\<lparr>data := dataloader_iter (original_dataloader p)\<rparr>)"

subsection \<open>Sequences of calls\<close>

datatype 'v prefetcher = CPU "'v batch CPUPrefetcher" | CUDA "'v CUDAPrefetcher"

datatype call = Next | Reset

datatype 'v event = Returned "'v batch option" | WasReset

fun prefetcher_next :: "nat \<Rightarrow> 'v prefetcher \<Rightarrow> ('v batch option \<times> 'v prefetcher) option" where
  "prefetcher_next k (CPU p) =
     (case CPUPrefetcher_next k p of None \<Rightarrow> None | Some (b, p') \<Rightarrow> Some (b, CPU p'))"
| "prefetcher_next k (CUDA p) =
     (case CUDAPrefetcher_next k p of None \<Rightarrow> None | Some (b, p') \<Rightarrow> Some (b, CUDA p'))"

fun prefetcher_reset :: "nat \<Rightarrow> 'v prefetcher \<Rightarrow> 'v prefetcher option" where
  "prefetcher_reset k (CPU p) = Some (CPU (CPUPrefetcher_reset p))"
| "prefetcher_reset k (CUDA p) =
     (case CUDAPrefetcher_reset k p of None \<Rightarrow> None | Some p' \<Rightarrow> Some (CUDA p'))"

text \<open>
  The calls of a consumer, one after the other; \<open>ks\<close> gives the steps of the worker before
  each call. \<open>None\<close>: one of the calls never returns.
\<close>

fun run :: "nat list \<Rightarrow> call list \<Rightarrow> 'v prefetcher \<Rightarrow> ('v event list \<times> 'v prefetcher) option" where
  "run ks [] p = Some ([], p)"
| "run ks (Next # cs) p =
     (case prefetcher_next (ahead ks) p of
        None \<Rightarrow> None
      | Some (b, p') \<Rightarrow>
          (case run (tl ks) cs p' of
             None \<Rightarrow> None
           | Some (evs, p'') \<Rightarrow> Some (Returned b # evs, p'')))"
| "run ks (Reset # cs) p =
     (case prefetcher_reset (ahead ks) p of
        None \<Rightarrow> None
      | Some p' \<Rightarrow>
          (case run (tl ks) cs p' of
             None \<Rightarrow> None
           | Some (evs, p'') \<Rightarrow> Some (WasReset # evs, p'')))"

text \<open>What an iterator will still yield, and whether it goes on raising at its end.\<close>

fun upcoming :: "'b iterator \<Rightarrow> 'b option list" where
  "upcoming (ListIter bs) = map Some bs"
| "upcoming (Prefetch g) = stream g"

fun raises_again :: "'b iterator \<Rightarrow> bool" where
  "raises_again (ListIter bs) = True"
| "raises_again (Prefetch g) = False"

fun outcome_of :: "'b option \<Rightarrow> 'b outcome" where
  "outcome_of (Some b) = Returns b"
| "outcome_of None = StopIteration"

lemma value_of_outcome_of [simp]: "outcome_of (value_of out) = out"
  by (cases out) simp_all

lemma iterator_next_Cons:
  assumes "upcoming it = v # vs"
  shows "\<exists>it'. iterator_next k it = Some (outcome_of v, it') \<and> upcoming it' = vs
           \<and> raises_again it' = raises_again it"
proof (cases it)
  case (ListIter bs)
  with assms show ?thesis by (cases bs) auto
next
  case (Prefetch g)
  with assms have "await_next k g \<noteq> None" by (simp add: await_next_blocks)
  then obtain out g' where a: "await_next k g = Some (out, g')" by auto
  from await_next_stream [OF a] assms Prefetch have "v = value_of out" "stream g' = vs"
    by simp_all
  with a Prefetch show ?thesis by simp
qed

lemma iterator_next_end:
  assumes "upcoming it = []"
  shows "iterator_next k it = (if raises_again it then Some (StopIteration, it) else None)"
proof (cases it)
  case (ListIter bs)
  with assms show ?thesis by simp
next
  case (Prefetch g)
  with assms have "await_next k g = None" by (simp add: await_next_blocks)
  with Prefetch show ?thesis by simp
qed

lemma upcoming_iter:
  "upcoming (dataloader_iter dl) = map Some (batches_of dl) @ (if raises_again (dataloader_iter dl) then [] else [None])"
  by (cases dl) (simp_all add: PrefetchGenerator_init_def stream_def pending_def)

text \<open>
  What of a prefetcher decides the values its calls return: its class and device, its
  loader, the values the coming calls of \<^verbatim>\<open>next\<close> return before the iterator is at its end,
  and whether the iterator goes on raising there. The progress of a worker thread is no
  part of it.
\<close>

fun feed :: "'v prefetcher \<Rightarrow> 'v batch option list" where
  "feed (CPU p) = upcoming (data p)"
| "feed (CUDA p) =
     batch_data p # map (map_option (batch_to_device (device p))) (upcoming (data p))"

fun view ::
  "'v prefetcher \<Rightarrow> string option \<times> 'v batch dataloader \<times> 'v batch option list \<times> bool" where
  "view (CPU p) = (None, original_dataloader p, feed (CPU p), raises_again (data p))"
| "view (CUDA p) = (Some (device p), original_dataloader p, feed (CUDA p), raises_again (data p))"

lemma CPUPrefetcher_next_Cons:
  assumes "upcoming (data p) = v # vs"
  shows "\<exists>it. CPUPrefetcher_next k p = Some (v, p\<lparr>data := it\<rparr>) \<and> upcoming it = vs
           \<and> raises_again it = raises_again (data p)"
proof -
  from iterator_next_Cons [OF assms, of k] obtain it where
    "iterator_next k (data p) = Some (outcome_of v, it)" "upcoming it = vs"
    "raises_again it = raises_again (data p)" by blast
  then show ?thesis
    by (cases v) (auto simp: CPUPrefetcher_next_def)
qed

lemma CPUPrefetcher_next_end:
  assumes "upcoming (data p) = []"
  shows "CPUPrefetcher_next k p = (if raises_again (data p) then Some (None, p) else None)"
  by (simp add: CPUPrefetcher_next_def iterator_next_end [OF assms])

lemma preload_Cons:
  assumes "upcoming (data p) = v # vs"
  shows "\<exists>it. preload k p
             = Some (p\<lparr>data := it, batch_data := map_option (batch_to_device (device p)) v\<rparr>)
           \<and> upcoming it = vs \<and> raises_again it = raises_again (data p)"
proof -
  from iterator_next_Cons [OF assms, of k] obtain it where
    "iterator_next k (data p) = Some (outcome_of v, it)" "upcoming it = vs"
    "raises_again it = raises_again (data p)" by blast
  then show ?thesis
    by (cases v) (auto simp: preload_def)
qed

lemma preload_end:
  assumes "upcoming (data p) = []"
  shows "preload k p = (if raises_again (data p) then Some (p\<lparr>batch_data := None\<rparr>) else None)"
  by (simp add: preload_def iterator_next_end [OF assms])

lemma prefetcher_next_view:
  assumes "view p = view q"
  shows "map_option (apsnd view) (prefetcher_next k p) = map_option (apsnd view) (prefetcher_next k' q)"
proof (cases p)
  case p: (CPU a)
  with assms obtain b where q: "q = CPU b" by (cases q) auto
  from assms p q have e: "original_dataloader a = original_dataloader b"
    "upcoming (data a) = upcoming (data b)" "raises_again (data a) = raises_again (data b)"
    by simp_all
  show ?thesis
  proof (cases "upcoming (data a)")
    case Nil
    with e have "upcoming (data b) = []" by simp
    with Nil e p q show ?thesis
      by (simp add: CPUPrefetcher_next_end)
  next
    case (Cons v vs)
    with e have c: "upcoming (data b) = v # vs" by simp
    from CPUPrefetcher_next_Cons [OF Cons, of k] CPUPrefetcher_next_Cons [OF c, of k'] e p q
    show ?thesis by auto
  qed
next
  case p: (CUDA a)
  with assms obtain b where q: "q = CUDA b" by (cases q) auto
  from assms p q have e: "original_dataloader a = original_dataloader b" "device a = device b"
    "batch_data a = batch_data b"
    "map (map_option (batch_to_device (device a))) (upcoming (data a))
       = map (map_option (batch_to_device (device a))) (upcoming (data b))"
    "raises_again (data a) = raises_again (data b)"
    by auto
  show ?thesis
  proof (cases "upcoming (data a)")
    case Nil
    with e have "upcoming (data b) = []" by simp
    with Nil e p q show ?thesis
      by (simp add: CUDAPrefetcher_next_def preload_end)
  next
    case (Cons v vs)
    with e(4) obtain v' vs' where c: "upcoming (data b) = v' # vs'"
      and m: "map_option (batch_to_device (device a)) v = map_option (batch_to_device (device a)) v'"
        "map (map_option (batch_to_device (device a))) vs = map (map_option (batch_to_device (device a))) vs'"
      by (cases "upcoming (data b)") auto
    from preload_Cons [OF Cons, of k] preload_Cons [OF c, of k'] e m p q
    show ?thesis by (auto simp: CUDAPrefetcher_next_def)
  qed
qed

fun iter_of :: "'v prefetcher \<Rightarrow> 'v batch iterator" where
  "iter_of (CPU p) = data p"
| "iter_of (CUDA p) = data p"

fun loader_of :: "'v prefetcher \<Rightarrow> 'v batch dataloader" where
  "loader_of (CPU p) = original_dataloader p"
| "loader_of (CUDA p) = original_dataloader p"

lemma preload_view:
  assumes "device a = device b" and "original_dataloader a = original_dataloader b"
    and "upcoming (data a) = upcoming (data b)" and "raises_again (data a) = raises_again (data b)"
  shows "map_option (\<lambda>p. view (CUDA p)) (preload k a) = map_option (\<lambda>p. view (CUDA p)) (preload k' b)"
proof (cases "upcoming (data a)")
  case Nil
  with assms(3) have "upcoming (data b) = []" by simp
  with Nil assms show ?thesis by (simp add: preload_end)
next
  case (Cons v vs)
  with assms(3) have c: "upcoming (data b) = v # vs" by simp
  from preload_Cons [OF Cons, of k] preload_Cons [OF c, of k'] assms
  show ?thesis by auto
qed

lemma prefetcher_reset_view:
  assumes "view p = view q"
  shows "map_option view (prefetcher_reset k p) = map_option view (prefetcher_reset k' q)"
proof (cases p)
  case p: (CPU a)
  with assms obtain b where q: "q = CPU b" by (cases q) auto
  with assms p show ?thesis by (simp add: CPUPrefetcher_reset_def)
next
  case p: (CUDA a)
  with assms obtain b where q: "q = CUDA b" by (cases q) auto
  from assms p q have e: "original_dataloader a = original_dataloader b" "device a = device b"
    by auto
  have "map_option (\<lambda>p. view (CUDA p)) (CUDAPrefetcher_reset k a)
          = map_option (\<lambda>p. view (CUDA p)) (CUDAPrefetcher_reset k' b)"
    unfolding CUDAPrefetcher_reset_def using e by (intro preload_view) simp_all
  with p q show ?thesis
    by (cases "CUDAPrefetcher_reset k a"; cases "CUDAPrefetcher_reset k' b"; simp)
qed

text \<open>The values a sequence of calls returns do not depend on the schedule of the worker.\<close>

lemma run_view:
  assumes "view p = view q"
  shows "map_option (apsnd view) (run ks cs p) = map_option (apsnd view) (run ks' cs q)"
  using assms
proof (induction cs arbitrary: p q ks ks')
  case Nil
  then show ?case by simp
next
  case (Cons c cs)
  show ?case
  proof (cases c)
    case Next
    note h = prefetcher_next_view [OF Cons.prems, of "ahead ks" "ahead ks'"]
    show ?thesis
    proof (cases "prefetcher_next (ahead ks) p")
      case None
      with h have "prefetcher_next (ahead ks') q = None" by simp
      with None Next show ?thesis by simp
    next
      case (Some r)
      then obtain b p' where r: "prefetcher_next (ahead ks) p = Some (b, p')" by (cases r) auto
      with h obtain q' where r': "prefetcher_next (ahead ks') q = Some (b, q')" and v: "view p' = view q'"
        by (cases "prefetcher_next (ahead ks') q") auto
      from Cons.IH [OF v, of "tl ks" "tl ks'"] r r' Next show ?thesis
        by (cases "run (tl ks) cs p'"; cases "run (tl ks') cs q'"; auto)
    qed
  next
    case Reset
    note h = prefetcher_reset_view [OF Cons.prems, of "ahead ks" "ahead ks'"]
    show ?thesis
    proof (cases "prefetcher_reset (ahead ks) p")
      case None
      with h have "prefetcher_reset (ahead ks') q = None" by simp
      with None Reset show ?thesis by simp
    next
      case (Some p')
      with h obtain q' where r': "prefetcher_reset (ahead ks') q = Some q'" and v: "view p' = view q'"
        by (cases "prefetcher_reset (ahead ks') q") auto
      from Cons.IH [OF v, of "tl ks" "tl ks'"] Some r' Reset show ?thesis
        by (cases "run (tl ks) cs p'"; cases "run (tl ks') cs q'"; auto)
    qed
  qed
qed

lemma run_append:
  "run ks (cs @ cs') p =
     (case run ks cs p of
        None \<Rightarrow> None
      | Some (evs, p') \<Rightarrow>
          (case run (drop (length cs) ks) cs' p' of
             None \<Rightarrow> None
           | Some (evs', p'') \<Rightarrow> Some (evs @ evs', p'')))"
proof (induction cs arbitrary: ks p)
  case Nil
  then show ?case by (simp split: option.splits)
next
  case (Cons c cs)
  show ?case
    by (cases c) (auto simp: Cons.IH drop_Suc split: option.splits)
qed

lemma prefetcher_next_Cons:
  assumes "upcoming (iter_of p) = v # vs"
  shows "\<exists>p'. prefetcher_next k p = Some (hd (feed p), p') \<and> feed p' = tl (feed p)
           \<and> upcoming (iter_of p') = vs \<and> raises_again (iter_of p') = raises_again (iter_of p)
           \<and> loader_of p' = loader_of p \<and> fst (view p') = fst (view p)"
proof (cases p)
  case (CPU a)
  with assms CPUPrefetcher_next_Cons [of a v vs k] show ?thesis by auto
next
  case (CUDA a)
  with assms preload_Cons [of a v vs k] show ?thesis
    by (auto simp: CUDAPrefetcher_next_def)
qed

lemma prefetcher_next_never_returns:
  assumes "upcoming (iter_of p) = []" and "\<not> raises_again (iter_of p)"
  shows "prefetcher_next k p = None"
  using assms
  by (cases p) (simp_all add: CPUPrefetcher_next_end CUDAPrefetcher_next_def preload_end)

lemma run_within:
  assumes "n \<le> length (upcoming (iter_of p))"
  shows "\<exists>p'. run ks (replicate n Next) p = Some (map Returned (take n (feed p)), p')
           \<and> feed p' = drop n (feed p)
           \<and> upcoming (iter_of p') = drop n (upcoming (iter_of p))
           \<and> raises_again (iter_of p') = raises_again (iter_of p)
           \<and> loader_of p' = loader_of p \<and> fst (view p') = fst (view p)"
  using assms
proof (induction n arbitrary: p ks)
  case 0
  then show ?case by simp
next
  case (Suc n)
  then obtain v vs where u: "upcoming (iter_of p) = v # vs"
    by (cases "upcoming (iter_of p)") auto
  from prefetcher_next_Cons [OF u, of "ahead ks"] obtain p1 where
    p1: "prefetcher_next (ahead ks) p = Some (hd (feed p), p1)" "feed p1 = tl (feed p)"
      "upcoming (iter_of p1) = vs" "raises_again (iter_of p1) = raises_again (iter_of p)"
      "loader_of p1 = loader_of p" "fst (view p1) = fst (view p)"
    by blast
  from Suc.prems u p1 have "n \<le> length (upcoming (iter_of p1))" by simp
  from Suc.IH [OF this, of "tl ks"] obtain p' where
    p': "run (tl ks) (replicate n Next) p1 = Some (map Returned (take n (feed p1)), p')"
      "feed p' = drop n (feed p1)" "upcoming (iter_of p') = drop n (upcoming (iter_of p1))"
      "raises_again (iter_of p') = raises_again (iter_of p1)"
      "loader_of p' = loader_of p1" "fst (view p') = fst (view p1)"
    by blast
  have f: "feed p \<noteq> []" using u by (cases p) auto
  then have t: "take (Suc n) (feed p) = hd (feed p) # take n (tl (feed p))"
    by (cases "feed p") simp_all
  from p1 p' u f t show ?case
    by (simp add: drop_Suc)
qed

lemma prefetcher_next_static:
  "prefetcher_next k p = Some (b, p') \<Longrightarrow> loader_of p' = loader_of p \<and> fst (view p') = fst (view p)"
  by (cases p)
    (auto simp: CPUPrefetcher_next_def CUDAPrefetcher_next_def preload_def
      split: option.splits outcome.splits)

lemma prefetcher_reset_static:
  "prefetcher_reset k p = Some p' \<Longrightarrow> loader_of p' = loader_of p \<and> fst (view p') = fst (view p)"
  by (cases p)
    (auto simp: CPUPrefetcher_reset_def CUDAPrefetcher_reset_def preload_def
      split: option.splits outcome.splits)

lemma run_static:
  "run ks cs p = Some (evs, p') \<Longrightarrow> loader_of p' = loader_of p \<and> fst (view p') = fst (view p)"
proof (induction cs arbitrary: ks p evs)
  case Nil
  then show ?case by simp
next
  case (Cons c cs)
  show ?case
  proof (cases c)
    case Next
    with Cons.prems obtain b p1 evs1 where
      "prefetcher_next (ahead ks) p = Some (b, p1)" "run (tl ks) cs p1 = Some (evs1, p')"
      by (auto split: option.splits)
    with Cons.IH [of "tl ks" p1 evs1] prefetcher_next_static [of "ahead ks" p b p1]
    show ?thesis by simp
  next
    case Reset
    with Cons.prems obtain p1 evs1 where
      "prefetcher_reset (ahead ks) p = Some p1" "run (tl ks) cs p1 = Some (evs1, p')"
      by (auto split: option.splits)
    with Cons.IH [of "tl ks" p1 evs1] prefetcher_reset_static [of "ahead ks" p p1]
    show ?thesis by simp
  qed
qed

subsection \<open>Counting batches\<close>

text \<open>
  The batches an iterator has still to yield; the batches a prefetcher holds staged; and the
  batches the calls have returned since the last \<^verbatim>\<open>reset\<close>, counted from \<open>c\<close>.
\<close>

definition remaining :: "'b iterator \<Rightarrow> nat" where
  "remaining it = length (filter (\<lambda>v. v \<noteq> None) (upcoming it))"

fun staged :: "'v prefetcher \<Rightarrow> nat" where
  "staged (CPU p) = 0"
| "staged (CUDA p) = (case batch_data p of None \<Rightarrow> 0 | Some b \<Rightarrow> 1)"

fun since_reset :: "nat \<Rightarrow> 'v event list \<Rightarrow> nat" where
  "since_reset c [] = c"
| "since_reset c (WasReset # evs) = since_reset 0 evs"
| "since_reset c (Returned None # evs) = since_reset c evs"
| "since_reset c (Returned (Some b) # evs) = since_reset (Suc c) evs"

lemma remaining_fresh: "remaining (dataloader_iter dl) = length (batches_of dl)"
  by (cases dl) (simp_all add: remaining_def PrefetchGenerator_init_def stream_def pending_def)

lemma preload_count:
  assumes "preload k a = Some a'"
  shows "remaining (data a') + staged (CUDA a') = remaining (data a)
           \<and> original_dataloader a' = original_dataloader a"
proof (cases "upcoming (data a)")
  case Nil
  with assms show ?thesis
    by (auto simp: preload_end remaining_def split: if_splits)
next
  case (Cons v vs)
  from preload_Cons [OF Cons, of k] assms Cons show ?thesis
    by (cases v) (auto simp: remaining_def)
qed

lemma prefetcher_next_count:
  assumes "prefetcher_next k p = Some (b, p')"
  shows "remaining (iter_of p') + staged p' + (case b of None \<Rightarrow> 0 | Some x \<Rightarrow> 1)
           = remaining (iter_of p) + staged p"
proof (cases p)
  case (CPU a)
  show ?thesis
  proof (cases "upcoming (data a)")
    case Nil
    with assms CPU show ?thesis
      by (auto simp: CPUPrefetcher_next_end split: if_splits)
  next
    case (Cons v vs)
    from CPUPrefetcher_next_Cons [OF Cons, of k] assms CPU Cons show ?thesis
      by (cases v) (auto simp: remaining_def)
  qed
next
  case (CUDA a)
  with assms obtain a' where a': "preload k a = Some a'" "p' = CUDA a'" "b = batch_data a"
    by (auto simp: CUDAPrefetcher_next_def split: option.splits)
  from preload_count [OF a'(1)] a' CUDA show ?thesis
    by (cases "batch_data a") simp_all
qed

lemma prefetcher_reset_count:
  assumes "prefetcher_reset k p = Some p'"
  shows "remaining (iter_of p') + staged p' = length (batches_of (loader_of p))"
proof (cases p)
  case (CPU a)
  with assms show ?thesis
    by (auto simp: CPUPrefetcher_reset_def remaining_fresh)
next
  case (CUDA a)
  with assms obtain a' where a': "preload k (a\<lparr>data := dataloader_iter (original_dataloader a)\<rparr>) = Some a'"
    "p' = CUDA a'"
    by (auto simp: CUDAPrefetcher_reset_def split: option.splits)
  from preload_count [OF a'(1)] a' CUDA show ?thesis
    by (simp add: remaining_fresh)
qed

lemma run_count:
  assumes "run ks cs p = Some (evs, p')"
    and "remaining (iter_of p) + c + staged p = length (batches_of (loader_of p))"
  shows "remaining (iter_of p') + since_reset c evs + staged p' = length (batches_of (loader_of p'))"
  using assms
proof (induction cs arbitrary: ks p c evs)
  case Nil
  then show ?case by simp
next
  case (Cons x cs)
  show ?case
  proof (cases x)
    case Next
    with Cons.prems(1) obtain b p1 evs1 where
      n: "prefetcher_next (ahead ks) p = Some (b, p1)" and r: "run (tl ks) cs p1 = Some (evs1, p')"
      and e: "evs = Returned b # evs1"
      by (auto split: option.splits)
    from prefetcher_next_static [OF n] have l: "loader_of p1 = loader_of p" by simp
    show ?thesis
    proof (cases b)
      case None
      with prefetcher_next_count [OF n] Cons.prems(2) l
      have "remaining (iter_of p1) + c + staged p1 = length (batches_of (loader_of p1))" by simp
      from Cons.IH [OF r this] e None show ?thesis by simp
    next
      case (Some y)
      with prefetcher_next_count [OF n] Cons.prems(2) l
      have "remaining (iter_of p1) + Suc c + staged p1 = length (batches_of (loader_of p1))" by simp
      from Cons.IH [OF r this] e Some show ?thesis by simp
    qed
  next
    case Reset
    with Cons.prems(1) obtain p1 evs1 where
      n: "prefetcher_reset (ahead ks) p = Some p1" and r: "run (tl ks) cs p1 = Some (evs1, p')"
      and e: "evs = WasReset # evs1"
      by (auto split: option.splits)
    from prefetcher_reset_static [OF n] prefetcher_reset_count [OF n]
    have "remaining (iter_of p1) + 0 + staged p1 = length (batches_of (loader_of p1))" by simp
    from Cons.IH [OF r this] e show ?thesis by simp
  qed
qed

subsection \<open>The calls at the end of an iteration\<close>

text \<open>A batch of two tensors on a device, for the examples.\<close>

abbreviation sample :: "string \<Rightarrow> nat \<Rightarrow> nat batch" where
  "sample dev i \<equiv> [(''lr'', Tensor dev i), (''hr'', Tensor dev (10 * i))]"

text \<open>
  C3. Over a \<^verbatim>\<open>PrefetchDataLoader\<close> with any number of batches, any queue size and any
  schedule of the worker, the calls of \<^verbatim>\<open>CPUPrefetcher.next\<close> return the batches in their
  order and then \<^verbatim>\<open>None\<close>; the call after that, which should return \<^verbatim>\<open>None\<close> again, never
  returns: the worker has put its one end marker and ended, and \<^verbatim>\<open>get\<close> waits on the empty
  queue. With 5 batches and a queue of size 2 the first five calls return the batches, the
  sixth returns \<^verbatim>\<open>None\<close> and the seventh does not return.
\<close>

theorem call_after_the_end_never_returns:
  "map_option fst (run ks (replicate (Suc (length bs)) Next) (CPU (CPUPrefetcher_init (PrefetchDataLoader N bs))))
     = Some (map (\<lambda>b. Returned (Some b)) bs @ [Returned None])
   \<and> run ks (replicate (Suc (length bs)) Next @ Next # cs) (CPU (CPUPrefetcher_init (PrefetchDataLoader N bs)))
     = None"
proof -
  let ?p = "CPU (CPUPrefetcher_init (PrefetchDataLoader N bs))"
  have u: "upcoming (iter_of ?p) = map Some bs @ [None]" "feed ?p = map Some bs @ [None]"
    "\<not> raises_again (iter_of ?p)"
    by (simp_all add: CPUPrefetcher_init_def PrefetchGenerator_init_def stream_def pending_def)
  then have "Suc (length bs) \<le> length (upcoming (iter_of ?p))" by simp
  from run_within [OF this, of ks] u obtain p' where
    r: "run ks (replicate (Suc (length bs)) Next) ?p = Some (map Returned (map Some bs @ [None]), p')"
    and e: "upcoming (iter_of p') = []" "\<not> raises_again (iter_of p')"
    by auto
  from e have "prefetcher_next k p' = None" for k
    by (rule prefetcher_next_never_returns)
  then have n: "run ks' (Next # cs) p' = None" for ks'
    by simp
  have a: "map_option fst (run ks (replicate (Suc (length bs)) Next) ?p)
      = Some (map (\<lambda>b. Returned (Some b)) bs @ [Returned None])"
    unfolding r by (simp add: comp_def)
  have b: "run ks (replicate (Suc (length bs)) Next @ Next # cs) ?p = None"
    unfolding run_append r by (simp only: n option.case prod.case)
  from a b show ?thesis ..
qed

theorem call_after_the_end_never_returns_witness:
  "map_option fst (run [] [Next, Next, Next, Next, Next, Next]
       (CPU (CPUPrefetcher_init (PrefetchDataLoader 2
          [sample ''cpu'' 1, sample ''cpu'' 2, sample ''cpu'' 3, sample ''cpu'' 4, sample ''cpu'' 5]))))
     = Some [Returned (Some (sample ''cpu'' 1)), Returned (Some (sample ''cpu'' 2)),
             Returned (Some (sample ''cpu'' 3)), Returned (Some (sample ''cpu'' 4)),
             Returned (Some (sample ''cpu'' 5)), Returned None]
   \<and> run [] [Next, Next, Next, Next, Next, Next, Next]
       (CPU (CPUPrefetcher_init (PrefetchDataLoader 2
          [sample ''cpu'' 1, sample ''cpu'' 2, sample ''cpu'' 3, sample ''cpu'' 4, sample ''cpu'' 5])))
     = None"
  using call_after_the_end_never_returns [of "[]"
      "[sample ''cpu'' 1, sample ''cpu'' 2, sample ''cpu'' 3, sample ''cpu'' 4, sample ''cpu'' 5]" 2 "[]"]
  by simp

text \<open>
  C6. After the construction of a \<^verbatim>\<open>CUDAPrefetcher\<close> and every sequence of calls of \<^verbatim>\<open>next\<close>
  and \<^verbatim>\<open>reset\<close> that have returned, the batches taken from the iterator since the last
  \<^verbatim>\<open>reset\<close> are the batches returned to the caller since then and the staged one: the
  batches left in the iterator, those returned and the staged one are all the batches of
  the loader. One batch at most is staged, so the prefetcher is one batch at most ahead
  of the caller.
\<close>

theorem at_most_one_batch_staged:
  assumes "CUDAPrefetcher_init k dl dev = Some p0" and "run ks cs (CUDA p0) = Some (evs, p)"
  shows "remaining (iter_of p) + since_reset 0 evs + staged p = length (batches_of dl)
       \<and> staged p \<le> 1
       \<and> length (batches_of dl) - remaining (iter_of p) \<le> since_reset 0 evs + 1"
proof -
  from assms(1) have i: "remaining (data p0) + staged (CUDA p0) = length (batches_of dl)"
    "original_dataloader p0 = dl"
    using preload_count [of k _ p0] by (auto simp: CUDAPrefetcher_init_def remaining_fresh)
  then have "remaining (iter_of (CUDA p0)) + 0 + staged (CUDA p0)
      = length (batches_of (loader_of (CUDA p0)))" by simp
  from run_count [OF assms(2) this] run_static [OF assms(2)] i(2)
  have c: "remaining (iter_of p) + since_reset 0 evs + staged p = length (batches_of dl)"
    by simp
  have s: "staged p \<le> 1"
    by (cases p) (simp_all split: option.splits)
  from c s show ?thesis by simp
qed

theorem at_most_one_batch_staged_witness:
  "run [] [Next, Reset, Next, Next]
      (CUDA \<lparr>original_dataloader = DataLoader [sample ''cpu'' 1, sample ''cpu'' 2, sample ''cpu'' 3],
             data = ListIter [sample ''cpu'' 2, sample ''cpu'' 3],
             batch_data = Some (sample ''cuda'' 1), device = ''cuda''\<rparr>)
     = Some ([Returned (Some (sample ''cuda'' 1)), WasReset, Returned (Some (sample ''cuda'' 1)),
              Returned (Some (sample ''cuda'' 2))],
             CUDA \<lparr>original_dataloader = DataLoader [sample ''cpu'' 1, sample ''cpu'' 2, sample ''cpu'' 3],
                   data = ListIter [], batch_data = Some (sample ''cuda'' 3), device = ''cuda''\<rparr>)
   \<and> remaining (ListIter ([] :: nat batch list))
         + since_reset 0 [Returned (Some (sample ''cuda'' 1)), WasReset,
             Returned (Some (sample ''cuda'' 1)), Returned (Some (sample ''cuda'' 2))]
         + staged (CUDA \<lparr>original_dataloader = DataLoader [sample ''cpu'' 1, sample ''cpu'' 2, sample ''cpu'' 3],
                   data = ListIter [], batch_data = Some (sample ''cuda'' 3), device = ''cuda''\<rparr>)
       = 3"
  using at_most_one_batch_staged [of 0 "DataLoader [sample ''cpu'' 1, sample ''cpu'' 2, sample ''cpu'' 3]"
      "''cuda''"
      "\<lparr>original_dataloader = DataLoader [sample ''cpu'' 1, sample ''cpu'' 2, sample ''cpu'' 3],
        data = ListIter [sample ''cpu'' 2, sample ''cpu'' 3],
        batch_data = Some (sample ''cuda'' 1), device = ''cuda''\<rparr>"
      "[]" "[Next, Reset, Next, Next]"
      "[Returned (Some (sample ''cuda'' 1)), WasReset, Returned (Some (sample ''cuda'' 1)),
        Returned (Some (sample ''cuda'' 2))]"
      "CUDA \<lparr>original_dataloader = DataLoader [sample ''cpu'' 1, sample ''cpu'' 2, sample ''cpu'' 3],
             data = ListIter [], batch_data = Some (sample ''cuda'' 3), device = ''cuda''\<rparr>"]
  by (simp add: CUDAPrefetcher_init_def CUDAPrefetcher_next_def CUDAPrefetcher_reset_def preload_def
      batch_to_device_def remaining_def)


lemma CUDA_at_end:
  assumes "data a = ListIter []" and "batch_data a = None"
  shows "run ks (replicate n Next) (CUDA a) = Some (replicate n (Returned None), CUDA a)"
proof (induction n arbitrary: ks)
  case 0
  then show ?case by simp
next
  case (Suc n)
  from assms have "a\<lparr>data := ListIter [], batch_data := None\<rparr> = a"
    by (cases a) simp
  with assms have "prefetcher_next k (CUDA a) = Some (None, CUDA a)" for k
    by (simp add: CUDAPrefetcher_next_def preload_def)
  with Suc [of "tl ks"] show ?case by simp
qed

lemma CUDA_ListIter:
  assumes "data a = ListIter bs"
  shows "\<exists>a'. run ks (replicate (Suc (length bs) + n) Next) (CUDA a)
           = Some (Returned (batch_data a)
                    # map (\<lambda>b. Returned (Some (batch_to_device (device a) b))) bs
                    @ replicate n (Returned None), CUDA a')"
  using assms
proof (induction bs arbitrary: a ks)
  case Nil
  let ?a = "a\<lparr>data := ListIter [], batch_data := None\<rparr>"
  from Nil have "prefetcher_next (ahead ks) (CUDA a) = Some (batch_data a, CUDA ?a)"
    by (simp add: CUDAPrefetcher_next_def preload_def)
  moreover have "run (tl ks) (replicate n Next) (CUDA ?a) = Some (replicate n (Returned None), CUDA ?a)"
    by (rule CUDA_at_end) simp_all
  ultimately show ?case by simp
next
  case (Cons b bs)
  let ?a = "a\<lparr>data := ListIter bs, batch_data := Some (batch_to_device (device a) b)\<rparr>"
  from Cons.prems have n: "prefetcher_next (ahead ks) (CUDA a) = Some (batch_data a, CUDA ?a)"
    by (simp add: CUDAPrefetcher_next_def preload_def)
  have "data ?a = ListIter bs" by simp
  from Cons.IH [OF this, of "tl ks"] obtain a' where
    "run (tl ks) (replicate (Suc (length bs) + n) Next) (CUDA ?a)
       = Some (Returned (batch_data ?a)
                # map (\<lambda>b. Returned (Some (batch_to_device (device ?a) b))) bs
                @ replicate n (Returned None), CUDA a')"
    by blast
  with n show ?case by simp
qed

text \<open>
  Over a plain \<^verbatim>\<open>DataLoader\<close> the calls of \<^verbatim>\<open>CUDAPrefetcher.next\<close> return the batches, on
  the device, and then \<^verbatim>\<open>None\<close> at every further call.
\<close>

lemma CUDA_DataLoader_end:
  "\<exists>p0 p. CUDAPrefetcher_init k (DataLoader bs) dev = Some p0
     \<and> run ks (replicate (length bs + n) Next) (CUDA p0)
        = Some (map (\<lambda>b. Returned (Some (batch_to_device dev b))) bs @ replicate n (Returned None), p)"
proof (cases bs)
  case Nil
  let ?a = "\<lparr>original_dataloader = DataLoader [], data = ListIter [], batch_data = None,
             device = dev\<rparr> :: 'a CUDAPrefetcher"
  have "CUDAPrefetcher_init k (DataLoader []) dev = Some ?a"
    by (simp add: CUDAPrefetcher_init_def preload_def)
  moreover have "run ks (replicate n Next) (CUDA ?a) = Some (replicate n (Returned None), CUDA ?a)"
    by (rule CUDA_at_end) simp_all
  ultimately show ?thesis using Nil by simp
next
  case (Cons b bs')
  let ?a = "\<lparr>original_dataloader = DataLoader (b # bs'), data = ListIter bs',
             batch_data = Some (batch_to_device dev b), device = dev\<rparr> :: 'a CUDAPrefetcher"
  have i: "CUDAPrefetcher_init k (DataLoader (b # bs')) dev = Some ?a"
    by (simp add: CUDAPrefetcher_init_def preload_def)
  have "data ?a = ListIter bs'" by simp
  from CUDA_ListIter [OF this, of ks n] obtain a' where
    "run ks (replicate (Suc (length bs') + n) Next) (CUDA ?a)
       = Some (Returned (batch_data ?a)
                # map (\<lambda>b. Returned (Some (batch_to_device (device ?a) b))) bs'
                @ replicate n (Returned None), CUDA a')"
    by blast
  with i Cons show ?thesis by simp
qed

text \<open>
  C7. Over a \<^verbatim>\<open>PrefetchDataLoader\<close>, with any number of batches, any queue size and any
  schedule of the worker, the calls of \<^verbatim>\<open>CUDAPrefetcher.next\<close> return the batches, on the
  device; staging has then found no further batch, and the next call, which should return
  \<^verbatim>\<open>None\<close>, never returns: its \<^verbatim>\<open>preload\<close> waits on the empty queue of a worker that has ended.
\<close>

theorem end_is_never_reported:
  "\<exists>p0. CUDAPrefetcher_init k (PrefetchDataLoader N bs) dev = Some p0
     \<and> map_option fst (run ks (replicate (length bs) Next) (CUDA p0))
         = Some (map (\<lambda>b. Returned (Some (batch_to_device dev b))) bs)
     \<and> run ks (replicate (length bs) Next @ Next # cs) (CUDA p0) = None"
proof -
  let ?a = "\<lparr>original_dataloader = PrefetchDataLoader N bs,
             data = dataloader_iter (PrefetchDataLoader N bs), batch_data = None,
             device = dev\<rparr> :: 'a CUDAPrefetcher"
  obtain v vs where c: "map Some bs @ [None] = v # vs"
    by (cases bs) auto
  then have l: "length vs = length bs"
    by (cases bs) auto
  have u: "upcoming (data ?a) = v # vs"
    using c by (simp add: PrefetchGenerator_init_def stream_def pending_def)
  from preload_Cons [OF u, of k] obtain it where
    p: "preload k ?a = Some (?a\<lparr>data := it, batch_data := map_option (batch_to_device dev) v\<rparr>)"
    and i: "upcoming it = vs" "\<not> raises_again it"
    by auto
  let ?p = "?a\<lparr>data := it, batch_data := map_option (batch_to_device dev) v\<rparr>"
  have f: "feed (CUDA ?p) = map (\<lambda>b. Some (batch_to_device dev b)) bs @ [None]"
  proof -
    have "feed (CUDA ?p) = map (map_option (batch_to_device dev)) (v # vs)"
      using i by simp
    also have "\<dots> = map (map_option (batch_to_device dev)) (map Some bs @ [None])"
      by (simp only: c)
    finally show ?thesis by (simp add: comp_def)
  qed
  have "length bs \<le> length (upcoming (iter_of (CUDA ?p)))"
    using i l by simp
  from run_within [OF this, of ks] f i l obtain p' where
    r: "run ks (replicate (length bs) Next) (CUDA ?p)
          = Some (map Returned (map (\<lambda>b. Some (batch_to_device dev b)) bs), p')"
    and e: "upcoming (iter_of p') = []" "\<not> raises_again (iter_of p')"
    by auto
  from e have "prefetcher_next k' p' = None" for k'
    by (rule prefetcher_next_never_returns)
  then have n: "run ks' (Next # cs) p' = None" for ks'
    by simp
  have a: "map_option fst (run ks (replicate (length bs) Next) (CUDA ?p))
      = Some (map (\<lambda>b. Returned (Some (batch_to_device dev b))) bs)"
    unfolding r by (simp add: comp_def)
  have b: "run ks (replicate (length bs) Next @ Next # cs) (CUDA ?p) = None"
    unfolding run_append r by (simp only: n option.case prod.case)
  from p a b show ?thesis
    unfolding CUDAPrefetcher_init_def by blast
qed

theorem end_is_never_reported_witness:
  "CUDAPrefetcher_init 0 (PrefetchDataLoader 2 [sample ''cpu'' 1]) ''cuda''
     = Some \<lparr>original_dataloader = PrefetchDataLoader 2 [sample ''cpu'' 1],
             data = Prefetch \<lparr>queue = [], maxsize = 2, generator = [], alive = True\<rparr>,
             batch_data = Some (sample ''cuda'' 1), device = ''cuda''\<rparr>
   \<and> map_option fst (run [] [Next]
        (CUDA \<lparr>original_dataloader = PrefetchDataLoader 2 [sample ''cpu'' 1],
             data = Prefetch \<lparr>queue = [], maxsize = 2, generator = [], alive = True\<rparr>,
             batch_data = Some (sample ''cuda'' 1), device = ''cuda''\<rparr>))
       = Some [Returned (Some (sample ''cuda'' 1))]
   \<and> run [] [Next, Next]
        (CUDA \<lparr>original_dataloader = PrefetchDataLoader 2 [sample ''cpu'' 1],
             data = Prefetch \<lparr>queue = [], maxsize = 2, generator = [], alive = True\<rparr>,
             batch_data = Some (sample ''cuda'' 1), device = ''cuda''\<rparr>)
       = None"
  using end_is_never_reported [of 0 2 "[sample ''cpu'' 1]" "''cuda''" "[]" "[]"]
  by (simp add: CUDAPrefetcher_init_def preload_def await_next_def PrefetchGenerator_init_def
      run_step_def full_def PrefetchGenerator_next_def batch_to_device_def)


lemma CPU_at_end:
  assumes "data a = ListIter []"
  shows "run ks (replicate n Next) (CPU a) = Some (replicate n (Returned None), CPU a)"
proof (induction n arbitrary: ks)
  case 0
  then show ?case by simp
next
  case (Suc n)
  from assms have "a\<lparr>data := ListIter []\<rparr> = a"
    by (cases a) simp
  with assms have "prefetcher_next k (CPU a) = Some (None, CPU a)" for k
    by (simp add: CPUPrefetcher_next_def)
  with Suc [of "tl ks"] show ?case by simp
qed

text \<open>
  Over a plain \<^verbatim>\<open>DataLoader\<close> the calls of \<^verbatim>\<open>CPUPrefetcher.next\<close> return the batches and
  then \<^verbatim>\<open>None\<close> at every further call.
\<close>

lemma CPU_DataLoader_end:
  assumes "data a = ListIter bs"
  shows "\<exists>a'. run ks (replicate (length bs + n) Next) (CPU a)
           = Some (map (\<lambda>b. Returned (Some b)) bs @ replicate n (Returned None), CPU a')"
  using assms
proof (induction bs arbitrary: a ks)
  case Nil
  then show ?case by (simp add: CPU_at_end)
next
  case (Cons b bs)
  let ?a = "a\<lparr>data := ListIter bs\<rparr>"
  from Cons.prems have n: "prefetcher_next (ahead ks) (CPU a) = Some (Some b, CPU ?a)"
    by (simp add: CPUPrefetcher_next_def)
  have "data ?a = ListIter bs" by simp
  from Cons.IH [OF this, of "tl ks"] obtain a' where
    "run (tl ks) (replicate (length bs + n) Next) (CPU ?a)
       = Some (map (\<lambda>b. Returned (Some b)) bs @ replicate n (Returned None), CPU a')"
    by blast
  with n show ?case by simp
qed

lemma preload_device: "preload k a = Some a' \<Longrightarrow> device a' = device a"
  by (auto simp: preload_def split: option.splits outcome.splits)

lemma run_same_view:
  assumes "view q = view p" and "run ks cs p = Some (evs, p')"
  shows "map_option fst (run ks' cs q) = Some evs"
proof -
  from run_view [OF assms(1), of ks' cs ks] assms(2)
  have "map_option (apsnd view) (run ks' cs q) = Some (evs, view p')" by simp
  then show ?thesis
    by (cases "run ks' cs q") auto
qed

lemma reset_then_same_calls:
  assumes "prefetcher_reset (ahead ks') p1 = Some p2" and "view p2 = view p"
    and "run ks cs p = Some (evs, p')"
  shows "map_option fst (run ks' (Reset # cs) p1) = Some (WasReset # evs)"
proof -
  from run_same_view [OF assms(2,3), of "tl ks'"] obtain r where
    "run (tl ks') cs p2 = Some r" "fst r = evs"
    by (cases "run (tl ks') cs p2") auto
  with assms(1) show ?thesis
    by (cases r) simp
qed

text \<open>
  C9. A prefetcher that has been reset behaves as the prefetcher just constructed: when a
  sequence of calls on the new \<^verbatim>\<open>CPUPrefetcher\<close> or \<^verbatim>\<open>CUDAPrefetcher\<close> has returned, such as the
  calls of \<^verbatim>\<open>next\<close> of a full drain, then \<^verbatim>\<open>reset\<close> followed by the same calls returns, and
  returns the same batches in the same order, for both loaders, every queue size and
  every schedule of the workers.
\<close>

theorem reset_reproduces_the_batches:
  "(run ks cs (CPU (CPUPrefetcher_init dl)) = Some (evs, p1) \<longrightarrow>
      map_option fst (run ks' (Reset # cs) p1) = Some (WasReset # evs))
   \<and> (CUDAPrefetcher_init k dl dev = Some p0 \<and> run ks cs (CUDA p0) = Some (evs', p1') \<longrightarrow>
      map_option fst (run ks' (Reset # cs) p1') = Some (WasReset # evs'))"
proof (intro conjI impI)
  assume r: "run ks cs (CPU (CPUPrefetcher_init dl)) = Some (evs, p1)"
  from run_static [OF r] have s: "loader_of p1 = dl" "fst (view p1) = None"
    by (simp_all add: CPUPrefetcher_init_def)
  then obtain a1 where a1: "p1 = CPU a1" by (cases p1) auto
  with s have "CPUPrefetcher_reset a1 = CPUPrefetcher_init dl"
    by (cases a1) (simp add: CPUPrefetcher_reset_def CPUPrefetcher_init_def)
  with a1 have "prefetcher_reset (ahead ks') p1 = Some (CPU (CPUPrefetcher_init dl))"
    by simp
  from reset_then_same_calls [OF this refl r]
  show "map_option fst (run ks' (Reset # cs) p1) = Some (WasReset # evs)" .
next
  assume "CUDAPrefetcher_init k dl dev = Some p0 \<and> run ks cs (CUDA p0) = Some (evs', p1')"
  then have i: "CUDAPrefetcher_init k dl dev = Some p0" and r: "run ks cs (CUDA p0) = Some (evs', p1')"
    by simp_all
  let ?a = "\<lparr>original_dataloader = dl, data = dataloader_iter dl, batch_data = None,
             device = dev\<rparr> :: 'a CUDAPrefetcher"
  from i have p: "preload k ?a = Some p0" by (simp add: CUDAPrefetcher_init_def)
  from preload_count [OF p] preload_device [OF p]
  have s0: "original_dataloader p0 = dl" "device p0 = dev" by simp_all
  from run_static [OF r] s0 have s: "loader_of p1' = dl" "fst (view p1') = Some dev"
    by simp_all
  then obtain a1 where a1: "p1' = CUDA a1" by (cases p1') auto
  with s have d: "original_dataloader a1 = dl" "device a1 = dev" by simp_all
  let ?b = "a1\<lparr>data := dataloader_iter (original_dataloader a1)\<rparr>"
  have "map_option (\<lambda>p. view (CUDA p)) (preload (ahead ks') ?b)
          = map_option (\<lambda>p. view (CUDA p)) (preload k ?a)"
    using d by (intro preload_view) simp_all
  with p obtain a2 where a2: "preload (ahead ks') ?b = Some a2" "view (CUDA a2) = view (CUDA p0)"
    by (cases "preload (ahead ks') ?b") auto
  with a1 have "prefetcher_reset (ahead ks') p1' = Some (CUDA a2)"
    by (simp add: CUDAPrefetcher_reset_def)
  from reset_then_same_calls [OF this a2(2) r]
  show "map_option fst (run ks' (Reset # cs) p1') = Some (WasReset # evs')" .
qed

theorem reset_reproduces_the_batches_witness:
  "run [] [Next, Next, Next] (CPU (CPUPrefetcher_init (PrefetchDataLoader 1 [sample ''cpu'' 1, sample ''cpu'' 2])))
     = Some ([Returned (Some (sample ''cpu'' 1)), Returned (Some (sample ''cpu'' 2)), Returned None],
             CPU \<lparr>original_dataloader = PrefetchDataLoader 1 [sample ''cpu'' 1, sample ''cpu'' 2],
                  data = Prefetch \<lparr>queue = [], maxsize = 1, generator = [], alive = False\<rparr>\<rparr>)
   \<and> map_option fst (run [2, 0, 1] [Reset, Next, Next, Next]
        (CPU \<lparr>original_dataloader = PrefetchDataLoader 1 [sample ''cpu'' 1, sample ''cpu'' 2],
              data = Prefetch \<lparr>queue = [], maxsize = 1, generator = [], alive = False\<rparr>\<rparr>))
       = Some [WasReset, Returned (Some (sample ''cpu'' 1)), Returned (Some (sample ''cpu'' 2)),
               Returned None]
   \<and> CUDAPrefetcher_init 0 (DataLoader [sample ''cpu'' 1, sample ''cpu'' 2]) ''cuda''
       = Some \<lparr>original_dataloader = DataLoader [sample ''cpu'' 1, sample ''cpu'' 2],
               data = ListIter [sample ''cpu'' 2], batch_data = Some (sample ''cuda'' 1),
               device = ''cuda''\<rparr>
   \<and> run [] [Next, Next, Next]
        (CUDA \<lparr>original_dataloader = DataLoader [sample ''cpu'' 1, sample ''cpu'' 2],
               data = ListIter [sample ''cpu'' 2], batch_data = Some (sample ''cuda'' 1),
               device = ''cuda''\<rparr>)
       = Some ([Returned (Some (sample ''cuda'' 1)), Returned (Some (sample ''cuda'' 2)), Returned None],
               CUDA \<lparr>original_dataloader = DataLoader [sample ''cpu'' 1, sample ''cpu'' 2],
                     data = ListIter [], batch_data = None, device = ''cuda''\<rparr>)
   \<and> map_option fst (run [] [Reset, Next, Next, Next]
        (CUDA \<lparr>original_dataloader = DataLoader [sample ''cpu'' 1, sample ''cpu'' 2],
               data = ListIter [], batch_data = None, device = ''cuda''\<rparr>))
       = Some [WasReset, Returned (Some (sample ''cuda'' 1)), Returned (Some (sample ''cuda'' 2)),
               Returned None]"
  using reset_reproduces_the_batches [where ks = "[]" and cs = "[Next, Next, Next]"
      and dl = "PrefetchDataLoader 1 [sample ''cpu'' 1, sample ''cpu'' 2]"
      and evs = "[Returned (Some (sample ''cpu'' 1)), Returned (Some (sample ''cpu'' 2)), Returned None]"
      and ?p1.0 = "CPU \<lparr>original_dataloader = PrefetchDataLoader 1 [sample ''cpu'' 1, sample ''cpu'' 2],
                  data = Prefetch \<lparr>queue = [], maxsize = 1, generator = [], alive = False\<rparr>\<rparr>"
      and ks' = "[2, 0, 1]" and k = 0 and dev = "''cuda''" and ?p0.0 = undefined
      and evs' = "[]" and p1' = undefined]
    reset_reproduces_the_batches [where ks = "[]" and cs = "[Next, Next, Next]"
      and dl = "DataLoader [sample ''cpu'' 1, sample ''cpu'' 2]"
      and evs = "[]" and ?p1.0 = undefined
      and ks' = "[]" and k = 0 and dev = "''cuda''"
      and ?p0.0 = "\<lparr>original_dataloader = DataLoader [sample ''cpu'' 1, sample ''cpu'' 2],
               data = ListIter [sample ''cpu'' 2], batch_data = Some (sample ''cuda'' 1),
               device = ''cuda''\<rparr>"
      and evs' = "[Returned (Some (sample ''cuda'' 1)), Returned (Some (sample ''cuda'' 2)), Returned None]"
      and p1' = "CUDA \<lparr>original_dataloader = DataLoader [sample ''cpu'' 1, sample ''cpu'' 2],
                     data = ListIter [], batch_data = None, device = ''cuda''\<rparr>"]
  by (simp add: CPUPrefetcher_init_def CPUPrefetcher_next_def CPUPrefetcher_reset_def
      CUDAPrefetcher_init_def CUDAPrefetcher_next_def CUDAPrefetcher_reset_def preload_def
      await_next_def PrefetchGenerator_init_def run_step_def full_def PrefetchGenerator_next_def
      batch_to_device_def)

end
